theory Spec2Isabelle
  imports Main "HOL-Library.Log_Nat"
begin

unbundle bit_operations_syntax

section \<open>Python values used by \<^verbatim>\<open>google_api.py\<close>\<close>

text \<open>
  Python integers are unbounded and their bitwise operators act on the infinite two's
  complement representation; HOL's \<^typ>\<open>int\<close> with \<open>AND\<close>, \<open>OR\<close>, \<open>NOT\<close>,
  \<^const>\<open>push_bit\<close> (\<^verbatim>\<open><<\<close>) and \<^const>\<open>drop_bit\<close> (\<^verbatim>\<open>>>\<close>) has the same semantics.
  The exceptions the modelled functions can raise are values of \<open>error\<close>.
  \<open>MalformedInput\<close> is the error kind that the specification names for the decoder;
  no function of the source raises it.
\<close>

datatype error = IndexError | OverflowError | NameError | MalformedInput

text \<open>
  \<^verbatim>\<open>ord\<close> and \<^verbatim>\<open>chr\<close>. A string is a list of \<^typ>\<open>char\<close>, each one code point
  below 256 (the alphabet of the format is ASCII; strings with larger code points are not
  modelled). \<open>py_chr\<close> is only ever applied to numbers between 63 and 126 (lemma
  \<open>split_into_chunks_range\<close> below), where \<^verbatim>\<open>chr\<close> does not raise.
\<close>

definition py_ord :: "char \<Rightarrow> int" where
  "py_ord c = of_char c"

definition py_chr :: "int \<Rightarrow> char" where
  "py_chr i = char_of i"

section \<open>Floating-point numbers\<close>

text \<open>
  A Python float is an IEEE 754 binary64 number. The finite ones are modelled by the
  rational numbers they denote; every arithmetic operation computes the exact result and
  rounds it to the nearest representable number, ties to the even significand. A result
  whose rounded magnitude reaches \<open>2 ^ 1024\<close> is an infinity. Infinities and NaN are
  not values of the model: the coordinates passed to \<open>encode_coords\<close> are finite.

  \<open>ilog2 x\<close> is \<open>\<lfloor>log\<^sub>2 x\<rfloor>\<close> for positive \<open>x\<close>; the spacing of the doubles around \<open>x\<close>
  is \<open>2 ^ (ilog2 x - 52)\<close>, and never less than \<open>2 ^ -1074\<close> (subnormal numbers).
\<close>

definition ilog2 :: "rat \<Rightarrow> int" where
  "ilog2 x = (if 1 \<le> x then bitlen \<lfloor>x\<rfloor> - 1 else - bitlen (\<lceil>1 / x\<rceil> - 1))"

definition round_half_even :: "rat \<Rightarrow> int" where
  "round_half_even q =
     (let f = \<lfloor>q\<rfloor>; r = q - of_int f
      in if r < 1 / 2 then f else if r > 1 / 2 then f + 1
         else if even f then f else f + 1)"

definition round_to_double :: "rat \<Rightarrow> rat" where
  "round_to_double x =
     (if x = 0 then 0
      else
        let p = max (ilog2 \<bar>x\<bar> - 52) (- 1074)
        in sgn x * (of_int (round_half_even (\<bar>x\<bar> / 2 powi p)) * 2 powi p))"

definition overflows :: "rat \<Rightarrow> bool" where
  "overflows x = (\<bar>round_to_double x\<bar> \<ge> 2 ^ 1024)"

definition is_double :: "rat \<Rightarrow> bool" where
  "is_double x = (round_to_double x = x \<and> \<not> overflows x)"

text \<open>
  A float literal such as \<^verbatim>\<open>-120.2\<close> denotes the double nearest to the decimal (all
  literals used below are far inside the range of the doubles).
\<close>

definition float_literal :: "rat \<Rightarrow> rat" where
  "float_literal x = round_to_double x"

text \<open>
  \<^verbatim>\<open>a * b\<close> on floats: \<open>None\<close> stands for an infinite product.
  \<^verbatim>\<open>int(p)\<close> on a float truncates towards zero and raises OverflowError on an infinity.
  \<^verbatim>\<open>k / d\<close> with an integer \<open>k\<close> and a float \<open>d\<close> first converts \<open>k\<close> to the nearest
  double, raising OverflowError when \<open>k\<close> is too large for one, and then divides; below
  the divisor is always \<open>100000.0\<close>, so the quotient is smaller in magnitude than the
  converted \<open>k\<close> and finite.
\<close>

definition float_mul :: "rat \<Rightarrow> rat \<Rightarrow> rat option" where
  "float_mul a b = (if overflows (a * b) then None else Some (round_to_double (a * b)))"

definition py_int :: "rat option \<Rightarrow> error + int" where
  "py_int p =
     (case p of
        None \<Rightarrow> Inl OverflowError
      | Some v \<Rightarrow> Inr (if v \<ge> 0 then \<lfloor>v\<rfloor> else \<lceil>v\<rceil>))"

definition int_truediv :: "int \<Rightarrow> rat \<Rightarrow> error + rat" where
  "int_truediv k d =
     (if overflows (of_int k) then Inl OverflowError
      else Inr (round_to_double (round_to_double (of_int k) / d)))"

section \<open>The variable-length integer encoder\<close>

text \<open>
  \<^verbatim>\<open>
  def _split_into_chunks(value):
      while value >= 32:
          yield (value & 31) | 0x20
          value >>= 5
      yield value
  \<close>
  The generator is modelled by the list of the values it yields.
\<close>

function split_into_chunks :: "int \<Rightarrow> int list" where
  "split_into_chunks v =
     (if v \<ge> 32 then ((v AND 31) OR 0x20) # split_into_chunks (drop_bit 5 v)
      else [v])"
  by pat_completeness auto
termination
proof (relation "measure nat")
  show "wf (measure nat)" by simp
next
  fix v :: int
  assume "32 \<le> v"
  then have "v div 32 < v" by simp
  with \<open>32 \<le> v\<close> show "(drop_bit 5 v, v) \<in> measure nat"
    by (simp add: drop_bit_eq_div)
qed

declare split_into_chunks.simps [simp del]

text \<open>
  \<^verbatim>\<open>
  def _encode_value(value):
      value = ~(value << 1) if value < 0 else (value << 1)
      chunks = _split_into_chunks(value)
      return (chr(chunk + 63) for chunk in chunks)
  \<close>
\<close>

definition sign_fold :: "int \<Rightarrow> int" where
  "sign_fold v = (if v < 0 then NOT (push_bit 1 v) else push_bit 1 v)"

definition encode_value :: "int \<Rightarrow> string" where
  "encode_value v = map (\<lambda>chunk. py_chr (chunk + 63)) (split_into_chunks (sign_fold v))"

section \<open>The decoder's inner loops\<close>

text \<open>
  \<^verbatim>\<open>
  while True:
      byte = ord(polyline_str[index]) - 63
      index += 1
      result |= (byte & 0x1f) << shift
      shift += 5
      if not byte >= 0x20:
          break
  \<close>
  \<open>index\<close> never becomes negative, so \<^verbatim>\<open>polyline_str[index]\<close> raises IndexError
  exactly when \<open>index\<close> has reached the length of the string.
\<close>

function read_chunks :: "string \<Rightarrow> nat \<Rightarrow> nat \<Rightarrow> int \<Rightarrow> error + (nat \<times> int)" where
  "read_chunks s index shift result =
     (if index \<ge> length s then Inl IndexError
      else
        let byte = py_ord (s ! index) - 63;
            index' = index + 1;
            result' = result OR push_bit shift (byte AND 0x1f);
            shift' = shift + 5
        in if \<not> byte \<ge> 0x20 then Inr (index', result')
           else read_chunks s index' shift' result')"
  by pat_completeness auto
termination
  by (relation "measure (\<lambda>(s, index, shift, result). length s - index)") auto

declare read_chunks.simps [simp del]

text \<open>
  One pass of the \<^verbatim>\<open>for unit in ['latitude', 'longitude']\<close> body: the chunk loop, then
  \<^verbatim>\<open>
  if (result & 1):
      changes[unit] = ~(result >> 1)
  else:
      changes[unit] = (result >> 1)
  \<close>
\<close>

definition sign_unfold :: "int \<Rightarrow> int" where
  "sign_unfold result =
     (if result AND 1 \<noteq> 0 then NOT (drop_bit 1 result) else drop_bit 1 result)"

definition decode_unit :: "string \<Rightarrow> nat \<Rightarrow> error + (nat \<times> int)" where
  "decode_unit s index =
     (case read_chunks s index 0 0 of
        Inl e \<Rightarrow> Inl e
      | Inr (index', result) \<Rightarrow> Inr (index', sign_unfold result))"

section \<open>\<^verbatim>\<open>decode_polyline\<close>\<close>

text \<open>
  \<^verbatim>\<open>
  index, lat, lng = 0, 0, 0
  coordinates = []
  changes = {'latitude': 0, 'longitude': 0}
  while index < len(polyline_str):
      for unit in ['latitude', 'longitude']:
          ... (the chunk loop and the sign test above)
      lat += changes['latitude']
      lng += changes['longitude']
      coordinates.append([lat / 100000.0, lng / 100000.0])
  return coordinates
  \<close>
  Both entries of \<open>changes\<close> are overwritten in every pass before they are read, so the
  dictionary is modelled by the two values just decoded. A coordinate
  \<^verbatim>\<open>[lat, lng]\<close> is a pair.
\<close>

function decode_loop ::
  "string \<Rightarrow> nat \<Rightarrow> int \<Rightarrow> int \<Rightarrow> (rat \<times> rat) list \<Rightarrow> error + (rat \<times> rat) list" where
  "decode_loop s index lat lng coordinates =
     (if index < length s then
        case decode_unit s index of
          Inl e \<Rightarrow> Inl e
        | Inr (index1, change_lat) \<Rightarrow>
            (case decode_unit s index1 of
               Inl e \<Rightarrow> Inl e
             | Inr (index2, change_lng) \<Rightarrow>
                 let lat' = lat + change_lat; lng' = lng + change_lng
                 in case int_truediv lat' 100000 of
                      Inl e \<Rightarrow> Inl e
                    | Inr flat \<Rightarrow>
                        (case int_truediv lng' 100000 of
                           Inl e \<Rightarrow> Inl e
                         | Inr flng \<Rightarrow>
                             decode_loop s index2 lat' lng' (coordinates @ [(flat, flng)])))
      else Inr coordinates)"
  by pat_completeness auto
termination
proof (relation "measure (\<lambda>(s, index, lat, lng, coordinates). length s - index)")
  show "wf (measure (\<lambda>(s, index, lat, lng, coordinates). length s - index))" by simp
next
  fix s :: string and index index1 index2 :: nat and lat lng change_lat change_lng lat' lng' :: int
    and coordinates :: "(rat \<times> rat) list" and x1 x2 :: "nat \<times> int" and flat flng :: rat
  assume lt: "index < length s"
    and u1: "decode_unit s index = Inr x1" "(index1, change_lat) = x1"
    and u2: "decode_unit s index1 = Inr x2" "(index2, change_lng) = x2"
  have advance: "i < i'" if "read_chunks t i shift r = Inr (i', r')"
    for t i shift r i' r'
    using that
  proof (induction t i shift r rule: read_chunks.induct)
    case (1 t i shift r)
    from "1.prems" have in_range: "i < length t"
      by (subst (asm) read_chunks.simps) (simp split: if_splits)
    show ?case
    proof (cases "py_ord (t ! i) - 63 \<ge> 0x20")
      case True
      with in_range "1.prems"
      have "read_chunks t (i + 1) (shift + 5)
              (r OR push_bit shift ((py_ord (t ! i) - 63) AND 0x1f)) = Inr (i', r')"
        by (subst (asm) read_chunks.simps) (simp add: Let_def)
      with "1.IH" [OF _ refl refl refl refl] True in_range have "i + 1 < i'"
        by simp
      then show ?thesis by simp
    next
      case False
      with in_range "1.prems" show ?thesis
        by (subst (asm) read_chunks.simps) (auto simp: Let_def split: if_splits)
    qed
  qed
  from u1 have "index < index1"
    by (auto simp: decode_unit_def split: sum.splits dest: advance)
  moreover from u2 have "index1 < index2"
    by (auto simp: decode_unit_def split: sum.splits dest: advance)
  ultimately show "((s, index2, lat', lng', coordinates @ [(flat, flng)]), (s, index, lat, lng, coordinates))
      \<in> measure (\<lambda>(s, index, lat, lng, coordinates). length s - index)"
    using lt by simp
qed

declare decode_loop.simps [simp del]

definition decode_polyline :: "string \<Rightarrow> error + (rat \<times> rat) list" where
  "decode_polyline polyline_str = decode_loop polyline_str 0 0 0 []"

section \<open>\<^verbatim>\<open>encode_coords\<close>\<close>

text \<open>
  \<^verbatim>\<open>
  result = []
  prev_lat = 0
  prev_lng = 0
  for x, y in coords:
      lat, lng = int(y * 1e5), int(x * 1e5)
      d_lat = _encode_value(lat - prev_lat)
      d_lng = _encode_value(lng - prev_lng)
      prev_lat, prev_lng = lat, lng
      result.append(d_lng)
      result.append(d_lat)
  return ''.join(c for r in result for c in r)
  \<close>
  The state of the loop is a record; one pass of the body is \<open>encode_step\<close>. Note that
  the variable \<open>lat\<close> is computed from the second component \<open>y\<close> of the pair and
  \<open>lng\<close> from the first component \<open>x\<close>.
\<close>

record encode_state =
  prev_lat :: int
  prev_lng :: int
  result :: "string list"

definition encode_step :: "encode_state \<Rightarrow> rat \<times> rat \<Rightarrow> error + encode_state" where
  "encode_step st c =
     (case c of (x, y) \<Rightarrow>
        case py_int (float_mul y 100000) of
          Inl e \<Rightarrow> Inl e
        | Inr lat \<Rightarrow>
            (case py_int (float_mul x 100000) of
               Inl e \<Rightarrow> Inl e
             | Inr lng \<Rightarrow>
                 let d_lat = encode_value (lat - prev_lat st);
                     d_lng = encode_value (lng - prev_lng st)
                 in Inr \<lparr>prev_lat = lat, prev_lng = lng,
                         result = result st @ [d_lng, d_lat]\<rparr>))"

fun encode_loop :: "encode_state \<Rightarrow> (rat \<times> rat) list \<Rightarrow> error + encode_state" where
  "encode_loop st [] = Inr st"
| "encode_loop st (c # coords) =
     (case encode_step st c of
        Inl e \<Rightarrow> Inl e
      | Inr st' \<Rightarrow> encode_loop st' coords)"

definition encode_coords :: "(rat \<times> rat) list \<Rightarrow> error + string" where
  "encode_coords coords =
     (case encode_loop \<lparr>prev_lat = 0, prev_lng = 0, result = []\<rparr> coords of
        Inl e \<Rightarrow> Inl e
      | Inr st \<Rightarrow> Inr (concat (result st)))"

section \<open>\<^verbatim>\<open>get_directions_polylines\<close>\<close>

text \<open>
  \<^verbatim>\<open>
  polylines = []
  if len(directions_result) > 0:
      for direction in directions_result:
          if 'overview_polyline' in direction:
              polylines.append(direction['overview_polyline']['points'])
          else:
              polyline.append(None)
  return polylines
  \<close>
  A direction of a directions response is a dictionary whose optional entry
  \<^verbatim>\<open>'overview_polyline'\<close> is an object with the field \<^verbatim>\<open>'points'\<close>; the other
  entries are not read here. The name \<^verbatim>\<open>polyline\<close> is bound nowhere in the module, so
  evaluating it raises NameError.
\<close>

record overview_polyline =
  points :: string

record direction =
  overview_polyline :: "overview_polyline option"

fun directions_loop :: "string list \<Rightarrow> direction list \<Rightarrow> error + string list" where
  "directions_loop polylines [] = Inr polylines"
| "directions_loop polylines (d # ds) =
     (case overview_polyline d of
        Some ov \<Rightarrow> directions_loop (polylines @ [points ov]) ds
      | None \<Rightarrow> Inl NameError)"

definition get_directions_polylines :: "direction list \<Rightarrow> error + string list" where
  "get_directions_polylines directions_result =
     (if length directions_result > 0 then directions_loop [] directions_result
      else Inr [])"

section \<open>Notions used in the statements\<close>

text \<open>
  A coordinate with five decimals is the multiple \<open>k * 10\<^sup>-\<^sup>5\<close> of an integer \<open>k\<close>; as a
  float it is the double nearest to that number (what the literal, or rounding to five
  decimal places, gives). \<open>scales_back k\<close>: for this coordinate \<open>v\<close>, \<^verbatim>\<open>int(v * 1e5)\<close> is
  \<open>k\<close> again.
\<close>

definition five_decimal :: "int \<Rightarrow> rat" where
  "five_decimal k = float_literal (of_int k / 100000)"

definition scales_back :: "int \<Rightarrow> bool" where
  "scales_back k = (py_int (float_mul (five_decimal k) 100000) = Inr k)"

text \<open>
  The scaled integer in the words of the specification: the value multiplied by
  \<open>100000\<close>, the product not rounded, and truncated towards zero.
\<close>

definition exact_scaled :: "rat \<Rightarrow> int" where
  "exact_scaled v = (let p = v * 100000 in if p \<ge> 0 then \<lfloor>p\<rfloor> else \<lceil>p\<rceil>)"

text \<open>
  \<open>rescales v\<close>: the encoder computes a scaled integer \<open>k\<close> for \<open>v\<close>, and the coordinate
  \<^verbatim>\<open>k / 100000.0\<close> that the decoder returns for \<open>k\<close> is scaled to \<open>k\<close> again.
\<close>

definition rescales :: "rat \<Rightarrow> bool" where
  "rescales v =
     (case py_int (float_mul v 100000) of
        Inl e \<Rightarrow> False
      | Inr k \<Rightarrow>
          (case int_truediv k 100000 of
             Inl e \<Rightarrow> False
           | Inr q \<Rightarrow> py_int (float_mul q 100000) = Inr k))"

text \<open>
  \<open>truncation_of p k\<close>: the integer \<open>k\<close> is \<open>p\<close> truncated towards zero, that is, \<open>k\<close> has
  the sign of \<open>p\<close> and \<open>\<bar>k\<bar>\<close> is the largest integer not above \<open>\<bar>p\<bar>\<close>.
\<close>

definition truncation_of :: "rat \<Rightarrow> int \<Rightarrow> bool" where
  "truncation_of p k = (\<bar>of_int k\<bar> \<le> \<bar>p\<bar> \<and> \<bar>p\<bar> < \<bar>of_int k\<bar> + 1 \<and> 0 \<le> of_int k * p)"

text \<open>
  The two possible orders of the two deltas of a coordinate \<open>(latitude, longitude)\<close>,
  written from the words of the specification: each value is scaled by \<open>100000\<close> and
  truncated, the delta is taken against the scaled value of the previous coordinate
  (zero at the start), and the characters of the two deltas are emitted either
  longitude first or latitude first.
\<close>

fun spec_encode_lon_first :: "int \<Rightarrow> int \<Rightarrow> (rat \<times> rat) list \<Rightarrow> error + string" where
  "spec_encode_lon_first plat plon [] = Inr []"
| "spec_encode_lon_first plat plon ((latitude, longitude) # cs) =
     (case py_int (float_mul longitude 100000) of
        Inl e \<Rightarrow> Inl e
      | Inr slon \<Rightarrow>
          (case py_int (float_mul latitude 100000) of
             Inl e \<Rightarrow> Inl e
           | Inr slat \<Rightarrow>
               (case spec_encode_lon_first slat slon cs of
                  Inl e \<Rightarrow> Inl e
                | Inr t \<Rightarrow> Inr (encode_value (slon - plon) @ encode_value (slat - plat) @ t))))"

fun spec_encode_lat_first :: "int \<Rightarrow> int \<Rightarrow> (rat \<times> rat) list \<Rightarrow> error + string" where
  "spec_encode_lat_first plat plon [] = Inr []"
| "spec_encode_lat_first plat plon ((latitude, longitude) # cs) =
     (case py_int (float_mul longitude 100000) of
        Inl e \<Rightarrow> Inl e
      | Inr slon \<Rightarrow>
          (case py_int (float_mul latitude 100000) of
             Inl e \<Rightarrow> Inl e
           | Inr slat \<Rightarrow>
               (case spec_encode_lat_first slat slon cs of
                  Inl e \<Rightarrow> Inl e
                | Inr t \<Rightarrow> Inr (encode_value (slat - plat) @ encode_value (slon - plon) @ t))))"

text \<open>
  The characters of a list of scaled coordinates, first component first, given the
  scaled values of the previous coordinate; used to relate the two loops.
\<close>

fun encode_deltas :: "int \<Rightarrow> int \<Rightarrow> (int \<times> int) list \<Rightarrow> string" where
  "encode_deltas pa pb [] = []"
| "encode_deltas pa pb ((a, b) # ks) =
     encode_value (a - pa) @ encode_value (b - pb) @ encode_deltas a b ks"

text \<open>
  The value of \<^verbatim>\<open>int(v * 1e5)\<close> when the product is finite, and the condition that it
  is finite.
\<close>

definition scaled :: "rat \<Rightarrow> int" where
  "scaled v =
     (let p = round_to_double (v * 100000) in if p \<ge> 0 then \<lfloor>p\<rfloor> else \<lceil>p\<rceil>)"

definition finite_scale :: "rat \<times> rat \<Rightarrow> bool" where
  "finite_scale c = (case c of (x, y) \<Rightarrow> \<not> overflows (x * 100000) \<and> \<not> overflows (y * 100000))"

text \<open>The coordinate that the decoder returns for the scaled integer \<open>k\<close>.\<close>

definition unscaled :: "int \<Rightarrow> rat" where
  "unscaled k = round_to_double (round_to_double (of_int k) / 100000)"

section \<open>Bit-level facts\<close>

lemma and31: "(v::int) AND 31 = v mod 32"
proof -
  have "(31::int) = mask 5" by (simp add: mask_eq_exp_minus_1)
  then have "v AND 31 = take_bit 5 v" by (simp only: take_bit_eq_mask)
  then show ?thesis by (simp add: take_bit_eq_mod)
qed

lemma chunk_or: "((v::int) AND 31) OR 32 = v mod 32 + 32"
proof -
  have "take_bit 5 v + push_bit 5 1 = take_bit 5 v OR push_bit 5 (1::int)"
    by (rule disjunctive_add) (simp only: bit_take_bit_iff bit_push_bit_iff, auto)
  then show ?thesis by (simp add: and31 take_bit_eq_mod)
qed

lemma split_into_chunks_range:
  "0 \<le> v \<Longrightarrow> c \<in> set (split_into_chunks v) \<Longrightarrow> 0 \<le> c \<and> c \<le> 63"
proof (induction v rule: split_into_chunks.induct)
  case (1 v)
  show ?case
  proof (cases "32 \<le> v")
    case True
    from "1.prems"(2) True have "c = v mod 32 + 32 \<or> c \<in> set (split_into_chunks (drop_bit 5 v))"
      by (subst (asm) split_into_chunks.simps) (simp add: chunk_or)
    then show ?thesis
    proof
      assume "c = v mod 32 + 32"
      then show ?thesis by simp
    next
      assume "c \<in> set (split_into_chunks (drop_bit 5 v))"
      with "1.IH" [OF True] "1.prems"(1) show ?thesis by simp
    qed
  next
    case False
    with "1.prems" show ?thesis
      by (subst (asm) split_into_chunks.simps) simp
  qed
qed

lemma sign_fold_eq: "sign_fold v = (if v < 0 then - (2 * v) - 1 else 2 * v)"
  by (simp add: sign_fold_def not_int_def push_bit_eq_mult)

lemma sign_unfold_eq: "sign_unfold r = (if odd r then - (r div 2) - 1 else r div 2)"
  by (simp add: sign_unfold_def and_one_eq drop_bit_eq_div not_int_def mod_2_eq_odd)

lemma sign_unfold_fold: "sign_unfold (sign_fold v) = v"
proof (cases "v < 0")
  case True
  have "(- (2 * v) - 1) div 2 = - v - 1" by presburger
  with True show ?thesis by (simp add: sign_unfold_eq sign_fold_eq)
next
  case False
  then show ?thesis by (simp add: sign_unfold_eq sign_fold_eq)
qed

lemma sign_fold_nonneg: "0 \<le> sign_fold v"
  by (simp add: sign_fold_eq)

lemma ord_chr: "0 \<le> c \<Longrightarrow> c \<le> 63 \<Longrightarrow> py_ord (py_chr (c + 63)) - 63 = c"
  by (simp add: py_ord_def py_chr_def)

lemma recombine: "(r OR push_bit shift (v mod 32)) OR push_bit (shift + 5) (drop_bit 5 v) = r OR push_bit shift (v::int)"
proof -
  have "take_bit 5 v + push_bit 5 (drop_bit 5 v) = take_bit 5 v OR push_bit 5 (drop_bit 5 v)"
    by (rule disjunctive_add) (simp only: bit_take_bit_iff bit_push_bit_iff, auto)
  then have "take_bit 5 v OR push_bit 5 (drop_bit 5 v) = v"
    using bits_ident [of 5 v] by (simp add: add.commute)
  then have "push_bit shift (take_bit 5 v OR push_bit 5 (drop_bit 5 v)) = push_bit shift v"
    by (rule arg_cong)
  then have "push_bit shift (take_bit 5 v) OR push_bit shift (push_bit 5 (drop_bit 5 v)) = push_bit shift v"
    by (simp only: push_bit_or)
  moreover have "push_bit shift (push_bit 5 (drop_bit 5 v)) = push_bit (shift + 5) (drop_bit 5 v)"
    by (simp only: push_bit_push_bit add.commute)
  ultimately show ?thesis
    by (simp add: take_bit_eq_mod or.assoc)
qed

lemma read_chunks_more:
  assumes "index < length s" and "py_ord (s ! index) - 63 = b" and "32 \<le> b"
  shows "read_chunks s index shift r
         = read_chunks s (index + 1) (shift + 5) (r OR push_bit shift (b AND 31))"
  using assms by (subst read_chunks.simps) (simp add: Let_def)

lemma read_chunks_last:
  assumes "index < length s" and "py_ord (s ! index) - 63 = b" and "\<not> 32 \<le> b"
  shows "read_chunks s index shift r = Inr (index + 1, r OR push_bit shift (b AND 31))"
  using assms by (subst read_chunks.simps) (simp add: Let_def)

lemma read_chunks_split:
  "0 \<le> v \<Longrightarrow>
   read_chunks (pre @ map (\<lambda>chunk. py_chr (chunk + 63)) (split_into_chunks v) @ rest)
     (length pre) shift r
   = Inr (length pre + length (split_into_chunks v), r OR push_bit shift v)"
proof (induction v arbitrary: pre shift r rule: split_into_chunks.induct)
  case (1 v)
  let ?enc = "\<lambda>chunk. py_chr (chunk + 63)"
  show ?case
  proof (cases "32 \<le> v")
    case True
    let ?c = "v mod 32 + 32"
    let ?cs = "split_into_chunks (drop_bit 5 v)"
    let ?s = "pre @ ?enc ?c # map ?enc ?cs @ rest"
    have chunks: "split_into_chunks v = ?c # ?cs"
      using True by (subst split_into_chunks.simps) (simp add: chunk_or)
    have byte: "py_ord (?s ! length pre) - 63 = ?c"
      using ord_chr [of ?c] by simp
    have low: "?c AND 31 = v mod 32"
      by (simp add: and31)
    have nonneg: "0 \<le> drop_bit 5 v"
      using "1.prems" by simp
    have "read_chunks ?s (length pre) shift r
          = read_chunks ?s (length pre + 1) (shift + 5) (r OR push_bit shift (?c AND 31))"
      by (rule read_chunks_more [OF _ byte]) simp_all
    also have "\<dots> = read_chunks ((pre @ [?enc ?c]) @ map ?enc ?cs @ rest)
          (length (pre @ [?enc ?c])) (shift + 5) (r OR push_bit shift (v mod 32))"
      by (simp only: low) simp
    also have "\<dots> = Inr (length (pre @ [?enc ?c]) + length ?cs,
                 (r OR push_bit shift (v mod 32)) OR push_bit (shift + 5) (drop_bit 5 v))"
      by (rule "1.IH" [OF True nonneg])
    also have "\<dots> = Inr (length pre + length (split_into_chunks v), r OR push_bit shift v)"
      by (simp only: recombine chunks) simp
    finally show ?thesis
      by (simp only: chunks list.map append_Cons)
  next
    case False
    with "1.prems" have small: "0 \<le> v" "v \<le> 63" "v mod 32 = v" by simp_all
    let ?s = "pre @ ?enc v # rest"
    have chunks: "split_into_chunks v = [v]"
      using False by (subst split_into_chunks.simps) simp
    have byte: "py_ord (?s ! length pre) - 63 = v"
      using ord_chr [of v] small by simp
    have "read_chunks ?s (length pre) shift r
          = Inr (length pre + 1, r OR push_bit shift (v AND 31))"
      by (rule read_chunks_last [OF _ byte]) (use False in simp_all)
    then show ?thesis
      by (simp add: chunks and31 small)
  qed
qed

section \<open>Integers as doubles\<close>

lemma round_half_even_int: "round_half_even (of_int n) = n"
  by (simp add: round_half_even_def)

lemma ilog2_int:
  assumes "0 < k"
  shows "ilog2 (of_int k) = bitlen k - 1"
  using assms by (simp add: ilog2_def)

lemma round_to_double_int:
  assumes "\<bar>k\<bar> < 2 ^ 53"
  shows "round_to_double (of_int k) = of_int k"
proof (cases "k = 0")
  case True
  then show ?thesis by (simp add: round_to_double_def)
next
  case False
  then have pos: "0 < \<bar>k\<bar>" by simp
  define d where "d = bitlen \<bar>k\<bar> - 1"
  have d0: "0 \<le> d" using pos by (simp add: d_def bitlen_alt_def)
  have "bitlen \<bar>k\<bar> \<le> 53"
    using assms by (simp add: bitlen_le_iff_power)
  then have d52: "d \<le> 52" by (simp add: d_def)
  have il: "ilog2 \<bar>of_int k\<bar> = d"
    using ilog2_int [OF pos] by (simp add: d_def)
  obtain n :: nat where n: "d - 52 = - int n"
    using d52 by (metis minus_diff_eq nonneg_int_cases diff_ge_0_iff_ge)
  have p: "max (d - 52) (- 1074) = - int n"
    using d0 n by simp
  have pw: "(2::rat) powi (- int n) = 1 / 2 ^ n"
    by (simp add: power_int_minus divide_simps)
  have r: "round_half_even (\<bar>rat_of_int k\<bar> * 2 ^ n) = \<bar>k\<bar> * 2 ^ n"
    using round_half_even_int [of "\<bar>k\<bar> * 2 ^ n"] by simp
  have "round_to_double (of_int k) = sgn (of_int k) * \<bar>of_int k :: rat\<bar>"
    using False by (simp add: round_to_double_def il Let_def p pw r)
  also have "\<dots> = of_int k" by (simp add: sgn_mult_abs)
  finally show ?thesis .
qed

lemma not_overflows_int:
  assumes "\<bar>k\<bar> < 2 ^ 53"
  shows "\<not> overflows (of_int k)"
proof -
  have "\<bar>of_int k :: rat\<bar> = of_int \<bar>k\<bar>" by simp
  also have "\<dots> < of_int (2 ^ 53)" using assms by (simp only: of_int_less_iff)
  also have "\<dots> = (2::rat) ^ 53" by simp
  also have "\<dots> < 2 ^ 1024" by (rule power_strict_increasing) simp_all
  finally show ?thesis
    by (simp add: overflows_def round_to_double_int [OF assms])
qed

lemma decode_unit_encoded:
  "decode_unit (pre @ encode_value d @ rest) (length pre)
   = Inr (length pre + length (encode_value d), d)"
  using read_chunks_split [OF sign_fold_nonneg, of pre d rest 0 0]
  by (simp add: decode_unit_def encode_value_def sign_unfold_fold)

section \<open>Rounding to a double, certified\<close>

text \<open>
  \<open>ilog2\<close> is the binary exponent: it is the only \<open>e\<close> with \<open>2\<^sup>e \<le> x < 2\<^sup>e\<^sup>+\<^sup>1\<close>.
  A rounding is certified by the exponent \<open>e\<close> and the integer significand \<open>m\<close>: the
  result is the multiple \<open>m * u\<close> of the spacing \<open>u\<close> that lies within half a spacing.
\<close>

lemma round_half_even_near:
  assumes "\<bar>q - of_int m\<bar> < 1 / 2"
  shows "round_half_even q = m"
proof (cases "of_int m \<le> q")
  case True
  with assms have "\<lfloor>q\<rfloor> = m" by (intro floor_unique) auto
  with assms True show ?thesis by (simp add: round_half_even_def)
next
  case False
  with assms have f: "\<lfloor>q\<rfloor> = m - 1" by (intro floor_unique) auto
  with assms False show ?thesis by (auto simp add: round_half_even_def Let_def)
qed

lemma bitlen_unique:
  assumes "2 ^ n \<le> k" and "k < 2 ^ Suc n"
  shows "bitlen k = int n + 1"
proof -
  have "(0::int) < 2 ^ n" by simp
  with assms(1) have pos: "0 < k" by linarith
  from bitlen_bounds [OF pos]
  have lo: "2 ^ nat (bitlen k - 1) \<le> k" and hi: "k < 2 ^ nat (bitlen k)" by simp_all
  have "(2::int) ^ n < 2 ^ nat (bitlen k)" using assms(1) hi by linarith
  then have a: "n < nat (bitlen k)" by (simp add: power_strict_increasing_iff)
  have "(2::int) ^ nat (bitlen k - 1) < 2 ^ Suc n" using assms(2) lo by linarith
  then have b: "nat (bitlen k - 1) < Suc n" by (simp only: power_strict_increasing_iff) 
  from a b show ?thesis by linarith
qed

lemma ilog2_unique:
  assumes "2 powi e \<le> x" and "x < 2 powi (e + 1)"
  shows "ilog2 x = e"
proof (cases "1 \<le> x")
  case True
  have "(1::rat) < 2 powi (e + 1)" using True assms(2) by simp
  have "0 < e + 1"
  proof (rule ccontr)
    assume "\<not> 0 < e + 1"
    then have "(2::rat) powi (e + 1) \<le> 2 powi 0"
      by (intro power_int_increasing) simp_all
    with \<open>1 < 2 powi (e + 1)\<close> show False by simp
  qed
  define n where "n = nat e"
  have n: "e = int n" using \<open>0 < e + 1\<close> by (simp add: n_def)
  have "rat_of_int (2 ^ n) \<le> x" using assms(1) by (simp add: n)
  then have lo: "2 ^ n \<le> \<lfloor>x\<rfloor>" by (simp only: le_floor_iff)
  have "x < rat_of_int (2 ^ Suc n)" using assms(2) by (simp add: n power_int_add)
  then have hi: "\<lfloor>x\<rfloor> < 2 ^ Suc n" by (simp only: floor_less_iff)
  show ?thesis using True bitlen_unique [OF lo hi] by (simp add: ilog2_def n)
next
  case False
  have "(0::rat) < 2 powi e" by simp
  with assms(1) have xpos: "0 < x" by linarith
  have "(2::rat) powi e < 1" using False assms(1) by simp
  have "e < 0"
  proof (rule ccontr)
    assume "\<not> e < 0"
    then have "(2::rat) powi 0 \<le> 2 powi e"
      by (intro power_int_increasing) simp_all
    with \<open>2 powi e < 1\<close> show False by simp
  qed
  define j where "j = nat (- e - 1)"
  have j: "e = - int (Suc j)" using \<open>e < 0\<close> by (simp add: j_def)
  have pw: "(2::rat) powi (- int n) = 1 / 2 ^ n" for n
    by (simp add: power_int_minus divide_simps)
  have "e + 1 = - int j" by (simp add: j)
  then have "(2::rat) powi (e + 1) = 1 / 2 ^ j" by (simp only: pw)
  with assms(2) have "x < 1 / 2 ^ j" by simp
  then have y_lo: "2 ^ j < 1 / x" using xpos by (simp add: field_simps)
  have "(2::rat) powi e = 1 / 2 ^ Suc j" by (simp only: j pw)
  with assms(1) have "1 / 2 ^ Suc j \<le> x" by simp
  then have y_hi: "1 / x \<le> 2 ^ Suc j" using xpos by (simp add: field_simps)
  have "rat_of_int (2 ^ j) < 1 / x" using y_lo by simp
  then have "2 ^ j < \<lceil>1 / x\<rceil>" by (simp only: less_ceiling_iff)
  then have lo: "2 ^ j \<le> \<lceil>1 / x\<rceil> - 1" by simp
  have "1 / x \<le> rat_of_int (2 ^ Suc j)" using y_hi by simp
  then have "\<lceil>1 / x\<rceil> \<le> 2 ^ Suc j" by (simp only: ceiling_le_iff)
  then have hi: "\<lceil>1 / x\<rceil> - 1 < 2 ^ Suc j" by simp
  show ?thesis using False bitlen_unique [OF lo hi] by (simp add: ilog2_def j)
qed

lemma round_to_double_cert:
  assumes "2 powi e \<le> \<bar>x\<bar>" and "\<bar>x\<bar> < 2 powi (e + 1)"
    and "u = 2 powi max (e - 52) (- 1074)"
    and "\<bar>\<bar>x\<bar> - of_int m * u\<bar> < u / 2"
    and "y = sgn x * (of_int m * u)"
  shows "round_to_double x = y"
proof -
  have upos: "0 < u" by (simp add: assms(3))
  have "(0::rat) < 2 powi e" by simp
  with assms(1) have "0 < \<bar>x\<bar>" by linarith
  then have nz: "x \<noteq> 0" by simp
  have il: "ilog2 \<bar>x\<bar> = e" using assms(1,2) by (rule ilog2_unique)
  have "\<bar>\<bar>x\<bar> / u - of_int m\<bar> = \<bar>\<bar>x\<bar> - of_int m * u\<bar> / u"
    using upos by (simp add: field_simps abs_divide)
  also have "\<dots> < 1 / 2" using assms(4) upos by (simp add: field_simps)
  finally have "round_half_even (\<bar>x\<bar> / u) = m" by (rule round_half_even_near)
  then show ?thesis
    using nz by (simp add: round_to_double_def il Let_def assms(5) flip: assms(3))
qed

lemma scaled_cert:
  assumes "round_to_double (v * 100000) = p" and "\<bar>p\<bar> < 2 ^ 1024"
    and "(0 \<le> p \<and> of_int k \<le> p \<and> p < of_int k + 1) \<or> (p < 0 \<and> of_int k - 1 < p \<and> p \<le> of_int k)"
  shows "\<not> overflows (v * 100000) \<and> scaled v = k"
proof -
  have "(if p \<ge> 0 then \<lfloor>p\<rfloor> else \<lceil>p\<rceil>) = k"
  proof (cases "0 \<le> p")
    case True
    with assms(3) have "\<lfloor>p\<rfloor> = k" by (intro floor_unique) auto
    with True show ?thesis by simp
  next
    case False
    with assms(3) have "\<lceil>p\<rceil> = k" by (intro ceiling_unique) auto
    with False show ?thesis by simp
  qed
  with assms(1,2) show ?thesis
    by (simp add: overflows_def scaled_def Let_def)
qed

text \<open>
  Conversely \<open>ilog2\<close> satisfies these bounds, so the significand of a rounded value lies
  between \<open>2\<^sup>5\<^sup>2\<close> and \<open>2\<^sup>5\<^sup>3\<close> (or below, for subnormal numbers). A finite double
  truncated towards zero is an integer that is a double again: \<^verbatim>\<open>int(v * 1e5)\<close> is
  converted to a float without rounding.
\<close>

lemma ilog2_bounds:
  assumes "0 < x"
  shows "2 powi (ilog2 x) \<le> x \<and> x < 2 powi (ilog2 x + 1)"
proof (cases "1 \<le> x")
  case True
  define n where "n = \<lfloor>x\<rfloor>"
  have npos: "0 < n" using True by (simp add: n_def)
  define b where "b = nat (bitlen n - 1)"
  have "1 \<le> bitlen n" using npos by (simp add: bitlen_alt_def)
  then have bl: "bitlen n = int b + 1" by (simp add: b_def)
  from bitlen_bounds [OF npos] have lo: "2 ^ b \<le> n" and hi: "n < 2 ^ Suc b"
    unfolding bl by (simp_all add: nat_add_distrib)
  have il: "ilog2 x = int b" using True by (simp add: ilog2_def n_def [symmetric] bl)
  have "rat_of_int (2 ^ b) \<le> rat_of_int n" using lo by (simp only: of_int_le_iff)
  also have "\<dots> \<le> x" unfolding n_def by linarith
  finally have a: "2 ^ b \<le> x" by simp
  have "n + 1 \<le> 2 ^ Suc b" using hi by simp
  then have "rat_of_int (n + 1) \<le> rat_of_int (2 ^ Suc b)" by (simp only: of_int_le_iff)
  moreover have "x < rat_of_int (n + 1)" unfolding n_def by linarith
  ultimately have c: "x < 2 ^ Suc b" by simp
  have "int b + 1 = int (Suc b)" by simp
  then have "(2::rat) powi (int b + 1) = 2 ^ Suc b" by (simp only: power_int_of_nat)
  with a c show ?thesis by (simp add: il)
next
  case False
  define c where "c = \<lceil>1 / x\<rceil>"
  have y: "1 < 1 / x" using False assms by simp
  then have "1 < c" by (simp add: c_def less_ceiling_iff)
  then have cpos: "0 < c - 1" by simp
  define j where "j = nat (bitlen (c - 1) - 1)"
  have "1 \<le> bitlen (c - 1)" using cpos by (simp add: bitlen_alt_def)
  then have bl: "bitlen (c - 1) = int j + 1" by (simp add: j_def)
  from bitlen_bounds [OF cpos] have lo: "2 ^ j \<le> c - 1" and hi: "c - 1 < 2 ^ Suc j"
    unfolding bl by (simp_all add: nat_add_distrib)
  have il: "ilog2 x = - int (Suc j)" using False by (simp add: ilog2_def c_def [symmetric] bl)
  have pw: "(2::rat) powi (- int n) = 1 / 2 ^ n" for n
    by (simp add: power_int_minus divide_simps)
  have "rat_of_int (c - 1) < 1 / x" unfolding c_def by linarith
  moreover have "rat_of_int (2 ^ j) \<le> rat_of_int (c - 1)" using lo by (simp only: of_int_le_iff)
  ultimately have "2 ^ j < 1 / x" by simp
  then have up: "x < 1 / 2 ^ j" using assms by (simp add: field_simps)
  have "c \<le> 2 ^ Suc j" using hi by simp
  then have "rat_of_int c \<le> rat_of_int (2 ^ Suc j)" by (simp only: of_int_le_iff)
  moreover have "1 / x \<le> rat_of_int c" unfolding c_def by linarith
  ultimately have "1 / x \<le> 2 ^ Suc j" by simp
  then have dn: "1 / 2 ^ Suc j \<le> x" using assms by (simp add: field_simps)
  have "ilog2 x + 1 = - int j" by (simp add: il)
  then have "(2::rat) powi (ilog2 x + 1) = 1 / 2 ^ j" by (simp only: pw)
  moreover have "(2::rat) powi (ilog2 x) = 1 / 2 ^ Suc j" by (simp only: il pw)
  ultimately show ?thesis using up dn by simp
qed

lemma round_half_even_bounds: "\<lfloor>q\<rfloor> \<le> round_half_even q \<and> round_half_even q \<le> \<lfloor>q\<rfloor> + 1"
  by (simp add: round_half_even_def Let_def)


lemma trunc_abs_le: "\<bar>rat_of_int (if p \<ge> 0 then \<lfloor>p\<rfloor> else \<lceil>p\<rceil>)\<bar> \<le> \<bar>p\<bar>"
proof (cases "0 \<le> p")
  case True
  then have "0 \<le> \<lfloor>p\<rfloor>" by simp
  then have "\<bar>rat_of_int \<lfloor>p\<rfloor>\<bar> = of_int \<lfloor>p\<rfloor>" by simp
  moreover have "rat_of_int \<lfloor>p\<rfloor> \<le> p" by linarith
  ultimately show ?thesis using True by simp
next
  case False
  then have "\<lceil>p\<rceil> \<le> 0" by (simp add: ceiling_le_iff)
  then have "\<bar>rat_of_int \<lceil>p\<rceil>\<bar> = - of_int \<lceil>p\<rceil>" by simp
  moreover have "p \<le> rat_of_int \<lceil>p\<rceil>" by linarith
  ultimately show ?thesis using False by simp
qed

lemma round_to_double_shape:
  assumes "x \<noteq> 0"
  defines "w \<equiv> 2 powi max (ilog2 \<bar>x\<bar> - 52) (- 1074)"
  defines "m \<equiv> round_half_even (\<bar>x\<bar> / w)"
  shows "round_to_double x = sgn x * (of_int m * w)"
    and "0 \<le> m" and "m \<le> 2 ^ 53"
    and "0 \<le> ilog2 \<bar>x\<bar> - 52 \<Longrightarrow> 2 ^ 52 \<le> m"
proof -
  let ?e = "ilog2 \<bar>x\<bar>"
  have xpos: "0 < \<bar>x\<bar>" using assms(1) by simp
  have wpos: "0 < w" by (simp add: w_def)
  show "round_to_double x = sgn x * (of_int m * w)"
    using assms(1) by (simp add: round_to_double_def Let_def w_def m_def)
  have qnn: "0 \<le> \<bar>x\<bar> / w" using wpos by simp
  then have "0 \<le> \<lfloor>\<bar>x\<bar> / w\<rfloor>" by simp
  with round_half_even_bounds [of "\<bar>x\<bar> / w"] show "0 \<le> m" unfolding m_def by linarith
  have "(2::rat) powi (?e + 1) \<le> 2 powi (max (?e - 52) (- 1074) + 53)"
    by (intro power_int_increasing) simp_all
  also have "\<dots> = w * 2 ^ 53"
    by (simp add: power_int_add w_def)
  finally have "\<bar>x\<bar> < w * 2 ^ 53"
    using ilog2_bounds [OF xpos] by simp
  then have "\<bar>x\<bar> / w < rat_of_int (2 ^ 53)" using wpos by (simp add: field_simps)
  then have "\<lfloor>\<bar>x\<bar> / w\<rfloor> < 2 ^ 53" by (simp only: floor_less_iff)
  with round_half_even_bounds [of "\<bar>x\<bar> / w"] show "m \<le> 2 ^ 53" unfolding m_def by linarith
  show "2 ^ 52 \<le> m" if "0 \<le> ?e - 52"
  proof -
    have w: "w = 2 powi (?e - 52)" using that by (simp add: w_def max_def)
    have "(2::rat) powi ?e = 2 powi (?e - 52 + 52)" by simp
    also have "\<dots> = w * 2 ^ 52" unfolding w by (subst power_int_add) simp_all
    finally have "w * 2 ^ 52 \<le> \<bar>x\<bar>" using ilog2_bounds [OF xpos] by simp
    then have "rat_of_int (2 ^ 52) \<le> \<bar>x\<bar> / w" using wpos by (simp add: field_simps)
    then have "2 ^ 52 \<le> \<lfloor>\<bar>x\<bar> / w\<rfloor>" by (simp only: le_floor_iff)
    with round_half_even_bounds [of "\<bar>x\<bar> / w"] show ?thesis unfolding m_def by linarith
  qed
qed


lemma trunc_double:
  assumes "\<bar>round_to_double x\<bar> < 2 ^ 1024"
  defines "k \<equiv> (if round_to_double x \<ge> 0 then \<lfloor>round_to_double x\<rfloor> else \<lceil>round_to_double x\<rceil>)"
  shows "round_to_double (of_int k) = of_int k \<and> \<bar>rat_of_int k\<bar> < 2 ^ 1024"
proof (cases "x = 0")
  case True
  then have "k = 0" by (simp add: k_def round_to_double_def)
  then show ?thesis using round_to_double_int [of 0] by simp
next
  case False
  define e where "e = ilog2 \<bar>x\<bar>"
  define w :: rat where "w = 2 powi max (e - 52) (- 1074)"
  define m where "m = round_half_even (\<bar>x\<bar> / w)"
  note shape = round_to_double_shape [OF False, folded e_def, folded w_def, folded m_def]
  have wpos: "0 < w" by (simp add: w_def)
  have p: "round_to_double x = sgn x * (of_int m * w)" by (rule shape(1))
  have absp: "\<bar>round_to_double x\<bar> = of_int m * w"
    using False shape(2) wpos by (simp add: p abs_mult)
  have kle: "\<bar>rat_of_int k\<bar> \<le> of_int m * w"
    using trunc_abs_le [of "round_to_double x"] by (simp add: k_def absp)
  then have bound: "\<bar>rat_of_int k\<bar> < 2 ^ 1024"
    using assms(1) absp by simp
  have "round_to_double (of_int k) = of_int k"
  proof (cases "0 \<le> e - 52")
    case small: False
    then have "max (e - 52) (- 1074) \<le> - 1" by simp
    then have "w \<le> 2 powi (- 1)"
      unfolding w_def by (intro power_int_increasing) simp_all
    then have "w \<le> 1 / 2" by (simp add: power_int_minus)
    moreover have "rat_of_int m \<le> rat_of_int (2 ^ 53)"
      using shape(3) by (simp only: of_int_le_iff)
    ultimately have "rat_of_int m * w \<le> 2 ^ 53 * (1 / 2)"
      using shape(2) wpos by (intro mult_mono) simp_all
    with kle have "rat_of_int \<bar>k\<bar> < rat_of_int (2 ^ 53)" by simp
    then have "\<bar>k\<bar> < 2 ^ 53" by (simp only: of_int_less_iff)
    then show ?thesis by (rule round_to_double_int)
  next
    case large: True
    define n where "n = nat (e - 52)"
    have en: "e - 52 = int n" using large by (simp add: n_def)
    have w: "w = 2 ^ n" using large by (simp add: w_def max_def en)
    have mlo: "2 ^ 52 \<le> m" using shape(4) large by simp
    define P where "P = (if 0 < x then 1 else - 1) * (m * 2 ^ n)"
    have pP: "round_to_double x = of_int P"
      using False by (simp add: p P_def w sgn_if)
    have kP: "k = P" by (simp add: k_def pP)
    have absP: "\<bar>rat_of_int P\<bar> = of_int m * w"
      using absp by (simp add: pP)
    have sP: "rat_of_int P = sgn (rat_of_int P) * (of_int m * w)"
      using absP by (simp add: sgn_mult_abs flip: absP)
    have e0: "(2::rat) powi e = w * 2 ^ 52"
    proof -
      have "(2::rat) powi e = 2 powi (int n + 52)" using en by (simp add: algebra_simps)
      also have "\<dots> = 2 powi int n * 2 powi 52" by (subst power_int_add) simp_all
      finally show ?thesis by (simp add: w)
    qed
    have e1: "(2::rat) powi (e + 1) = w * 2 ^ 53"
    proof -
      have "(2::rat) powi (e + 1) = 2 powi (int n + 53)" using en by (simp add: algebra_simps)
      also have "\<dots> = 2 powi int n * 2 powi 53" by (subst power_int_add) simp_all
      finally show ?thesis by (simp add: w)
    qed
    have e2: "(2::rat) powi (e + 1 + 1) = w * 2 ^ 54"
    proof -
      have "(2::rat) powi (e + 1 + 1) = 2 powi (int n + 54)" using en by (simp add: algebra_simps)
      also have "\<dots> = 2 powi int n * 2 powi 54" by (subst power_int_add) simp_all
      finally show ?thesis by (simp add: w)
    qed
    have u1: "w = 2 powi max (e - 52) (- 1074)" by (simp add: w_def)
    have u2: "2 * w = 2 powi max (e + 1 - 52) (- 1074)"
    proof -
      have "max (e + 1 - 52) (- 1074) = int n + 1" using en by simp
      moreover have "(2::rat) powi (int n + 1) = 2 powi int n * 2 powi 1"
        by (subst power_int_add) simp_all
      ultimately show ?thesis by (simp add: w)
    qed
    have "round_to_double (of_int P) = of_int P"
    proof (cases "m < 2 ^ 53")
      case True
      have lo: "2 powi e \<le> \<bar>rat_of_int P\<bar>"
      proof -
        have "rat_of_int (2 ^ 52) \<le> rat_of_int m" using mlo by (simp only: of_int_le_iff)
        then have "w * 2 ^ 52 \<le> of_int m * w" using wpos by simp
        then show ?thesis by (simp only: e0 absP)
      qed
      have hi: "\<bar>rat_of_int P\<bar> < 2 powi (e + 1)"
      proof -
        have "rat_of_int m < rat_of_int (2 ^ 53)" using True by (simp only: of_int_less_iff)
        then have "of_int m * w < w * 2 ^ 53" using wpos by simp
        then show ?thesis by (simp only: e1 absP)
      qed
      show ?thesis
        by (rule round_to_double_cert [OF lo hi u1 _ sP]) (simp add: absP wpos)
    next
      case False
      with shape(3) have m: "m = 2 ^ 53" by simp
      have absP': "\<bar>rat_of_int P\<bar> = w * 2 ^ 53" by (simp add: absP m)
      have lo: "2 powi (e + 1) \<le> \<bar>rat_of_int P\<bar>" by (simp only: e1 absP')
      have hi: "\<bar>rat_of_int P\<bar> < 2 powi (e + 1 + 1)"
        using wpos by (simp only: e2 absP') simp
      have sP': "rat_of_int P = sgn (rat_of_int P) * (of_int (2 ^ 52) * (2 * w))"
        using sP by (simp add: m)
      show ?thesis
        by (rule round_to_double_cert [OF lo hi u2 _ sP']) (simp add: absP' wpos)
    qed
    then show ?thesis by (simp only: kP)
  qed
  with bound show ?thesis by simp
qed

lemma scaled_is_double:
  assumes "\<not> overflows (v * 100000)"
  shows "round_to_double (of_int (scaled v)) = of_int (scaled v) \<and> \<not> overflows (of_int (scaled v))"
proof -
  from assms have "\<bar>round_to_double (v * 100000)\<bar> < 2 ^ 1024"
    by (simp add: overflows_def)
  from trunc_double [OF this] show ?thesis
    by (simp add: scaled_def Let_def overflows_def)
qed

section \<open>The two loops in terms of scaled coordinates\<close>

lemma split_into_chunks_nonempty: "split_into_chunks v \<noteq> []"
  by (subst split_into_chunks.simps) simp

lemma encode_value_nonempty: "encode_value d \<noteq> []"
  by (simp add: encode_value_def split_into_chunks_nonempty)

lemma py_int_scaled:
  "py_int (float_mul v 100000) = (if overflows (v * 100000) then Inl OverflowError else Inr (scaled v))"
  by (simp add: py_int_def float_mul_def scaled_def Let_def)

lemma encode_step_scaled:
  "encode_step st (x, y) =
     (if finite_scale (x, y)
      then Inr \<lparr>prev_lat = scaled y, prev_lng = scaled x,
                result = result st @ [encode_value (scaled x - prev_lng st),
                                       encode_value (scaled y - prev_lat st)]\<rparr>
      else Inl OverflowError)"
  by (simp add: encode_step_def py_int_scaled finite_scale_def Let_def)

lemma encode_loop_concat:
  "(case encode_loop st cs of Inl e \<Rightarrow> Inl e | Inr st' \<Rightarrow> Inr (concat (result st')))
   = (if list_all finite_scale cs
      then Inr (concat (result st) @
                encode_deltas (prev_lng st) (prev_lat st) (map (\<lambda>(x, y). (scaled x, scaled y)) cs))
      else Inl OverflowError)"
proof (induction cs arbitrary: st)
  case Nil
  then show ?case by simp
next
  case (Cons c cs)
  obtain x y where c: "c = (x, y)" by (cases c)
  show ?case
  proof (cases "finite_scale (x, y)")
    case True
    then show ?thesis
      using Cons.IH by (simp add: c encode_step_scaled)
  next
    case False
    then show ?thesis by (simp add: c encode_step_scaled)
  qed
qed

lemma encode_coords_deltas:
  "encode_coords cs =
     (if list_all finite_scale cs
      then Inr (encode_deltas 0 0 (map (\<lambda>(x, y). (scaled x, scaled y)) cs))
      else Inl OverflowError)"
  using encode_loop_concat [of "\<lparr>prev_lat = 0, prev_lng = 0, result = []\<rparr>" cs]
  by (simp add: encode_coords_def)

lemma int_truediv_unscaled:
  "int_truediv k 100000 = (if overflows (of_int k) then Inl OverflowError else Inr (unscaled k))"
  by (simp add: int_truediv_def unscaled_def)

lemma decode_loop_deltas:
  assumes "\<forall>(a, b) \<in> set ks. \<not> overflows (of_int a) \<and> \<not> overflows (of_int b)"
  shows "decode_loop (pre @ encode_deltas lat lng ks) (length pre) lat lng acc
         = Inr (acc @ map (\<lambda>(a, b). (unscaled a, unscaled b)) ks)"
  using assms
proof (induction ks arbitrary: pre lat lng acc)
  case Nil
  then show ?case by (subst decode_loop.simps) simp
next
  case (Cons k ks)
  obtain a b where k: "k = (a, b)" by (cases k)
  let ?e1 = "encode_value (a - lat)"
  let ?e2 = "encode_value (b - lng)"
  let ?rest = "encode_deltas a b ks"
  let ?s = "pre @ encode_deltas lat lng (k # ks)"
  have s1: "?s = pre @ ?e1 @ (?e2 @ ?rest)" by (simp add: k)
  have s2: "?s = (pre @ ?e1) @ ?e2 @ ?rest" by (simp add: k)
  have s3: "?s = (pre @ ?e1 @ ?e2) @ ?rest" by (simp add: k)
  have u1: "decode_unit ?s (length pre) = Inr (length (pre @ ?e1), a - lat)"
    unfolding s1 by (simp add: decode_unit_encoded)
  have u2: "decode_unit ?s (length (pre @ ?e1)) = Inr (length (pre @ ?e1 @ ?e2), b - lng)"
    unfolding s2 using decode_unit_encoded [of "pre @ ?e1" "b - lng" ?rest] by simp
  have lt: "length pre < length ?s"
    using encode_value_nonempty [of "a - lat"] by (simp add: k)
  from Cons.prems have fin: "\<not> overflows (of_int a)" "\<not> overflows (of_int b)"
    and rest: "\<forall>(a, b) \<in> set ks. \<not> overflows (of_int a) \<and> \<not> overflows (of_int b)"
    by (simp_all add: k)
  have "decode_loop ?s (length pre) lat lng acc
        = decode_loop ?s (length (pre @ ?e1 @ ?e2)) a b (acc @ [(unscaled a, unscaled b)])"
    by (subst decode_loop.simps) (simp add: lt u1 u2 Let_def int_truediv_unscaled fin del: length_append)
  also have "\<dots> = Inr ((acc @ [(unscaled a, unscaled b)]) @ map (\<lambda>(a, b). (unscaled a, unscaled b)) ks)"
    unfolding s3 by (rule Cons.IH [OF rest])
  finally show ?case by (simp add: k)
qed

section \<open>The variable-length integer codec\<close>

text \<open>
  Claim C6. For every signed integer \<open>d\<close>, the decoder's per-integer loop followed by the
  inverse sign fold, started at the first character of \<open>_encode_value(d)\<close> (wherever
  that encoding sits in the string and whatever follows it), returns \<open>d\<close> and stops right
  behind the last character of the encoding.
\<close>

theorem varint_roundtrip:
  "decode_unit (pre @ encode_value d @ rest) (length pre)
   = Inr (length pre + length (encode_value d), d)"
  using read_chunks_split [OF sign_fold_nonneg, of pre d rest 0 0]
  by (simp add: decode_unit_def encode_value_def sign_unfold_fold)

section \<open>Empty inputs\<close>

text \<open>
  Claim C9. \<open>encode_coords\<close> maps the empty coordinate sequence to the empty string, and
  \<open>decode_polyline\<close> maps the empty string to the empty coordinate sequence.
\<close>

theorem empty_identities:
  "encode_coords [] = Inr [] \<and> decode_polyline [] = Inr []"
  by (simp add: encode_coords_def decode_polyline_def decode_loop.simps)

section \<open>The known vector\<close>

text \<open>
  The scaled integers of the six literals of the reference test case, each from two
  certified roundings: the literal to its double, and the product with \<open>100000.0\<close>.
\<close>

lemma scaled_38_5:
  "\<not> overflows (float_literal 38.5 * 100000) \<and> scaled (float_literal 38.5) = 3850000"
proof -
  have lit: "float_literal 38.5 = 77 / 2"
    unfolding float_literal_def
    by (rule round_to_double_cert [where e = "5" and m = "5418393301680128" and u = "1 / 2 ^ 47"])
      (simp_all add: power_int_minus)
  have prod: "round_to_double ((77 / 2) * 100000) = 3850000"
    by (rule round_to_double_cert [where e = "21" and m = "8267812044800000" and u = "1 / 2 ^ 31"])
      (simp_all add: power_int_minus)
  show ?thesis
    unfolding lit by (rule scaled_cert [OF prod]) simp_all
qed

lemma scaled_120_2:
  "\<not> overflows (float_literal (- 120.2) * 100000) \<and> scaled (float_literal (- 120.2)) = - 12020000"
proof -
  have lit: "float_literal (- 120.2) = - (8458323050155213 / 70368744177664)"
    unfolding float_literal_def
    by (rule round_to_double_cert [where e = "6" and m = "8458323050155213" and u = "1 / 2 ^ 46"])
      (simp_all add: power_int_minus)
  have prod: "round_to_double ((- (8458323050155213 / 70368744177664)) * 100000) = - 12020000"
    by (rule round_to_double_cert [where e = "23" and m = "6453188362240000" and u = "1 / 2 ^ 29"])
      (simp_all add: power_int_minus)
  show ?thesis
    unfolding lit by (rule scaled_cert [OF prod]) simp_all
qed

lemma scaled_40_7:
  "\<not> overflows (float_literal 40.7 * 100000) \<and> scaled (float_literal 40.7) = 4070000"
proof -
  have lit: "float_literal 40.7 = 2864007888030925 / 70368744177664"
    unfolding float_literal_def
    by (rule round_to_double_cert [where e = "5" and m = "5728015776061850" and u = "1 / 2 ^ 47"])
      (simp_all add: power_int_minus)
  have prod: "round_to_double ((2864007888030925 / 70368744177664) * 100000) = 8740258447360001 / 2147483648"
    by (rule round_to_double_cert [where e = "21" and m = "8740258447360001" and u = "1 / 2 ^ 31"])
      (simp_all add: power_int_minus)
  show ?thesis
    unfolding lit by (rule scaled_cert [OF prod]) simp_all
qed

lemma scaled_120_95:
  "\<not> overflows (float_literal (- 120.95) * 100000) \<and> scaled (float_literal (- 120.95)) = - 12095000"
proof -
  have lit: "float_literal (- 120.95) = - (8511099608288461 / 70368744177664)"
    unfolding float_literal_def
    by (rule round_to_double_cert [where e = "6" and m = "8511099608288461" and u = "1 / 2 ^ 46"])
      (simp_all add: power_int_minus)
  have prod: "round_to_double ((- (8511099608288461 / 70368744177664)) * 100000) = - 12095000"
    by (rule round_to_double_cert [where e = "23" and m = "6493453680640000" and u = "1 / 2 ^ 29"])
      (simp_all add: power_int_minus)
  show ?thesis
    unfolding lit by (rule scaled_cert [OF prod]) simp_all
qed

lemma scaled_43_252:
  "\<not> overflows (float_literal 43.252 * 100000) \<and> scaled (float_literal 43.252) = 4325200"
proof -
  have lit: "float_literal 43.252 = 6087177846344647 / 140737488355328"
    unfolding float_literal_def
    by (rule round_to_double_cert [where e = "5" and m = "6087177846344647" and u = "1 / 2 ^ 47"])
      (simp_all add: power_int_minus)
  have prod: "round_to_double ((6087177846344647 / 140737488355328) * 100000) = 4325200"
    by (rule round_to_double_cert [where e = "22" and m = "4644148137164800" and u = "1 / 2 ^ 30"])
      (simp_all add: power_int_minus)
  show ?thesis
    unfolding lit by (rule scaled_cert [OF prod]) simp_all
qed

lemma scaled_126_453:
  "\<not> overflows (float_literal (- 126.453) * 100000) \<and> scaled (float_literal (- 126.453)) = - 12645300"
proof -
  have lit: "float_literal (- 126.453) = - (4449169403749073 / 35184372088832)"
    unfolding float_literal_def
    by (rule round_to_double_cert [where e = "6" and m = "8898338807498146" and u = "1 / 2 ^ 46"])
      (simp_all add: power_int_minus)
  have prod: "round_to_double ((- (4449169403749073 / 35184372088832)) * 100000) = - 12645300"
    by (rule round_to_double_cert [where e = "23" and m = "6788893743513600" and u = "1 / 2 ^ 29"])
      (simp_all add: power_int_minus)
  show ?thesis
    unfolding lit by (rule scaled_cert [OF prod]) simp_all
qed


lemma unscaled_small:
  assumes "\<bar>k\<bar> < 2 ^ 53"
  shows "\<not> overflows (of_int k) \<and> unscaled k = round_to_double (of_int k / 100000)"
  using assms by (simp add: unscaled_def round_to_double_int not_overflows_int)

lemma known_deltas:
  "encode_deltas 0 0 [(3850000, - 12020000), (4070000, - 12095000), (4325200, - 12645300)]
   = ''_p~iF~ps|U_ulLnnqC_mqNvxq`@''"
  by code_simp

lemma unscaled_known:
  "unscaled 3850000 = float_literal 38.5"
  "unscaled (- 12020000) = float_literal (- 120.2)"
  "unscaled 4070000 = float_literal 40.7"
  "unscaled (- 12095000) = float_literal (- 120.95)"
  "unscaled 4325200 = float_literal 43.252"
  "unscaled (- 12645300) = float_literal (- 126.453)"
  using unscaled_small [of 3850000] unscaled_small [of "- 12020000"]
    unscaled_small [of 4070000] unscaled_small [of "- 12095000"]
    unscaled_small [of 4325200] unscaled_small [of "- 12645300"]
  by (simp_all add: float_literal_def)

lemma known_encode:
  "encode_coords
     [(float_literal 38.5, float_literal (- 120.2)),
      (float_literal 40.7, float_literal (- 120.95)),
      (float_literal 43.252, float_literal (- 126.453))]
   = Inr ''_p~iF~ps|U_ulLnnqC_mqNvxq`@''"
  by (simp only: encode_coords_deltas list.pred_inject finite_scale_def prod.case list.map
      scaled_38_5 scaled_120_2 scaled_40_7 scaled_120_95 scaled_43_252 scaled_126_453
      known_deltas simp_thms if_True)

lemma known_decode:
  "decode_polyline ''_p~iF~ps|U_ulLnnqC_mqNvxq`@''
   = Inr [(float_literal 38.5, float_literal (- 120.2)),
          (float_literal 40.7, float_literal (- 120.95)),
          (float_literal 43.252, float_literal (- 126.453))]"
proof -
  let ?ks = "[(3850000, - 12020000), (4070000, - 12095000), (4325200, - 12645300)] :: (int \<times> int) list"
  have small: "\<forall>(a, b) \<in> set ?ks. \<not> overflows (of_int a) \<and> \<not> overflows (of_int b)"
    using unscaled_small [of 3850000] unscaled_small [of "- 12020000"]
      unscaled_small [of 4070000] unscaled_small [of "- 12095000"]
      unscaled_small [of 4325200] unscaled_small [of "- 12645300"]
    by simp
  have "decode_loop ([] @ encode_deltas 0 0 ?ks) (length ([] :: string)) 0 0 []
        = Inr ([] @ map (\<lambda>(a, b). (unscaled a, unscaled b)) ?ks)"
    using small by (rule decode_loop_deltas)
  then have "decode_polyline ''_p~iF~ps|U_ulLnnqC_mqNvxq`@''
        = Inr (map (\<lambda>(a, b). (unscaled a, unscaled b)) ?ks)"
    by (simp only: known_deltas decode_polyline_def append_Nil list.size)
  then show ?thesis
    by (simp only: list.map prod.case unscaled_known)
qed

text \<open>
  Claim C2. Encoding \<open>[(38.5, -120.2), (40.7, -120.95), (43.252, -126.453)]\<close> gives the
  string \<^verbatim>\<open>_p~iF~ps|U_ulLnnqC_mqNvxq`@\<close>, and decoding that string gives the same three
  coordinates (as doubles: the doubles nearest to the decimal literals).
\<close>

theorem known_vector:
  "encode_coords
     [(float_literal 38.5, float_literal (- 120.2)),
      (float_literal 40.7, float_literal (- 120.95)),
      (float_literal 43.252, float_literal (- 126.453))]
   = Inr ''_p~iF~ps|U_ulLnnqC_mqNvxq`@''
   \<and> decode_polyline ''_p~iF~ps|U_ulLnnqC_mqNvxq`@''
   = Inr [(float_literal 38.5, float_literal (- 120.2)),
          (float_literal 40.7, float_literal (- 120.95)),
          (float_literal 43.252, float_literal (- 126.453))]"
  using known_encode known_decode by (rule conjI)

section \<open>A large value\<close>

text \<open>
  The product with \<open>100000.0\<close> is rounded: for the double \<open>2\<^sup>5\<^sup>3 - 11 = 9007199254740981.0\<close>
  it is \<open>900719925474098151424\<close>, and the decoder returns \<open>9007199254740982.0\<close> for that
  integer.
\<close>

lemma large_deltas: "encode_deltas 0 0 [(900719925474098151424, 0)] = ''____}~~~~~~nyo@?''"
  by code_simp

lemma large_value_not_restored:
  "encode_coords [(9007199254740981, 0)] = Inr ''____}~~~~~~nyo@?''
   \<and> decode_polyline ''____}~~~~~~nyo@?'' = Inr [(9007199254740982, 0)]"
proof -
  have p1: "round_to_double (9007199254740981 * 100000) = 900719925474098151424"
    by (rule round_to_double_cert [where e = "69" and m = "6871947673599992" and u = "2 ^ 17"])
      (simp_all add: power_int_minus)
  have p2: "round_to_double 900719925474098151424 = 900719925474098151424"
    by (rule round_to_double_cert [where e = "69" and m = "6871947673599992" and u = "2 ^ 17"])
      (simp_all add: power_int_minus)
  have p3: "round_to_double (900719925474098151424 / 100000) = 9007199254740982"
    by (rule round_to_double_cert [where e = "52" and m = "9007199254740982" and u = "2 ^ 0"])
      (simp_all add: power_int_minus)
  have z: "round_to_double 0 = 0" by (simp add: round_to_double_def)
  have s1: "\<not> overflows (9007199254740981 * 100000) \<and> scaled 9007199254740981 = 900719925474098151424"
    by (rule scaled_cert [OF p1]) simp_all
  have s2: "\<not> overflows (0 * 100000) \<and> scaled 0 = 0"
    by (simp add: overflows_def scaled_def z)
  have enc: "encode_coords [(9007199254740981, 0)] = Inr ''____}~~~~~~nyo@?''"
    by (simp only: encode_coords_deltas list.pred_inject finite_scale_def prod.case list.map
        s1 s2 large_deltas simp_thms if_True)
  have o1: "\<not> overflows (of_int 900719925474098151424)"
    by (simp add: overflows_def p2)
  have o2: "\<not> overflows (of_int 0)"
    by (simp add: overflows_def z)
  have "decode_loop ([] @ encode_deltas 0 0 [(900719925474098151424, 0)]) (length ([] :: string)) 0 0 []
        = Inr ([] @ map (\<lambda>(a, b). (unscaled a, unscaled b)) [(900719925474098151424, 0)])"
    by (rule decode_loop_deltas) (use o1 o2 in simp)
  then have "decode_polyline ''____}~~~~~~nyo@?''
        = Inr [(unscaled 900719925474098151424, unscaled 0)]"
    by (simp only: large_deltas decode_polyline_def append_Nil list.size list.map prod.case)
  moreover have "unscaled 900719925474098151424 = 9007199254740982"
    by (simp only: unscaled_def of_int_numeral p2 p3)
  moreover have "unscaled 0 = 0"
    by (simp add: unscaled_def z)
  ultimately show ?thesis using enc by simp
qed

section \<open>Small examples\<close>

text \<open>
  The doubles \<open>1/65536\<close>, \<open>-3/65536\<close> and \<open>5/65536\<close> scale to \<open>1\<close>, \<open>-4\<close> and \<open>7\<close>
  (the products with \<open>100000.0\<close> are \<open>1.52587890625\<close>, \<open>-4.57763671875\<close> and
  \<open>7.62939453125\<close>); the double nearest to \<open>0.00007\<close> scales to \<open>6\<close>, because its
  product with \<open>100000.0\<close> is rounded to \<open>6.999999999999999\<close>.
\<close>

lemma scaled_zero: "\<not> overflows (0 * 100000) \<and> scaled 0 = 0"
  by (simp add: overflows_def scaled_def round_to_double_def)

lemma scaled_1_65536: "\<not> overflows (1 / 65536 * 100000) \<and> scaled (1 / 65536) = 1"
proof -
  have prod: "round_to_double (1 / 65536 * 100000) = 3125 / 2048"
    by (rule round_to_double_cert [where e = "0" and m = "6871947673600000" and u = "1 / 2 ^ 52"])
      (simp_all add: power_int_minus)
  show ?thesis
    by (rule scaled_cert [OF prod]) simp_all
qed

lemma scaled_3_65536: "\<not> overflows (- (3 / 65536) * 100000) \<and> scaled (- (3 / 65536)) = - 4"
proof -
  have prod: "round_to_double (- (3 / 65536) * 100000) = - (9375 / 2048)"
    by (rule round_to_double_cert [where e = "2" and m = "5153960755200000" and u = "1 / 2 ^ 50"])
      (simp_all add: power_int_minus)
  show ?thesis
    by (rule scaled_cert [OF prod]) simp_all
qed

lemma scaled_5_65536: "\<not> overflows (5 / 65536 * 100000) \<and> scaled (5 / 65536) = 7"
proof -
  have prod: "round_to_double (5 / 65536 * 100000) = 15625 / 2048"
    by (rule round_to_double_cert [where e = "2" and m = "8589934592000000" and u = "1 / 2 ^ 50"])
      (simp_all add: power_int_minus)
  show ?thesis
    by (rule scaled_cert [OF prod]) simp_all
qed

lemma scaled_7e5:
  "\<not> overflows (float_literal (7 / 100000) * 100000) \<and> scaled (float_literal (7 / 100000)) = 6"
proof -
  have lit: "float_literal (7 / 100000) = 2582544170319337 / 36893488147419103232"
    unfolding float_literal_def
    by (rule round_to_double_cert [where e = "- 14" and m = "5165088340638674" and u = "1 / 2 ^ 66"])
      (simp_all add: power_int_minus)
  have prod: "round_to_double (2582544170319337 / 36893488147419103232 * 100000)
      = 7881299347898367 / 1125899906842624"
    by (rule round_to_double_cert [where e = "2" and m = "7881299347898367" and u = "1 / 2 ^ 50"])
      (simp_all add: power_int_minus)
  show ?thesis
    unfolding lit by (rule scaled_cert [OF prod]) simp_all
qed

lemma is_double_5_65536: "is_double (5 / 65536)"
proof -
  have "round_to_double (5 / 65536) = 5 / 65536"
    by (rule round_to_double_cert [where e = "- 14" and m = "5629499534213120" and u = "1 / 2 ^ 66"])
      (simp_all add: power_int_minus)
  then show ?thesis by (simp add: is_double_def overflows_def)
qed

lemma py_int_small:
  "py_int (float_mul 0 100000) = Inr 0"
  "py_int (float_mul (1 / 65536) 100000) = Inr 1"
  "py_int (float_mul (- (3 / 65536)) 100000) = Inr (- 4)"
  "py_int (float_mul (5 / 65536) 100000) = Inr 7"
  "py_int (float_mul (float_literal (7 / 100000)) 100000) = Inr 6"
  by (simp_all only: py_int_scaled scaled_zero scaled_1_65536 scaled_3_65536 scaled_5_65536
      scaled_7e5 if_False)

lemma small_values:
  "encode_value 0 = ''?''" "encode_value 1 = ''A''" "encode_value (- 4) = ''F''"
  "encode_value 7 = ''M''" "encode_value 6 = ''K''"
  by code_simp+

lemma spec_encode_lat_first_deltas:
  "spec_encode_lat_first plat plon cs =
     (if list_all finite_scale cs
      then Inr (encode_deltas plat plon (map (\<lambda>(x, y). (scaled x, scaled y)) cs))
      else Inl OverflowError)"
proof (induction cs arbitrary: plat plon)
  case Nil
  then show ?case by simp
next
  case (Cons c cs)
  obtain x y where c: "c = (x, y)" by (cases c)
  show ?case
    by (simp add: c py_int_scaled finite_scale_def Cons.IH)
qed

section \<open>The order of the two deltas\<close>

text \<open>
  Claim C3, as stated: for every coordinate of the input, \<open>encode_coords\<close> emits the
  characters of the longitude delta before those of the latitude delta. For the single
  coordinate with latitude \<open>1/65536\<close> and longitude \<open>0\<close> the output is \<^verbatim>\<open>A?\<close>, the
  latitude delta \<open>1\<close> first; longitude first would be \<^verbatim>\<open>?A\<close>.
\<close>

theorem encode_order_counterexample:
  "encode_coords [(1 / 65536, 0)] = Inr ''A?''
   \<and> spec_encode_lon_first 0 0 [(1 / 65536, 0)] = Inr ''?A''"
  by (simp add: encode_coords_def encode_step_def py_int_small small_values)

text \<open>
  Claim C3, amended: for every input sequence of \<open>(latitude, longitude)\<close> pairs,
  \<open>encode_coords\<close> emits for each coordinate the characters of the latitude delta before
  those of the longitude delta (the variable named \<open>d_lng\<close>, appended first, holds the
  delta of the first component of the pair); it fails exactly when a product overflows.
\<close>

theorem encode_latitude_first:
  "encode_coords coords = spec_encode_lat_first 0 0 coords"
  by (simp only: encode_coords_deltas spec_encode_lat_first_deltas)

section \<open>Scaling truncates\<close>

lemma truncation_of_trunc: "truncation_of p (if p \<ge> 0 then \<lfloor>p\<rfloor> else \<lceil>p\<rceil>)"
proof (cases "0 \<le> p")
  case True
  then have "0 \<le> \<lfloor>p\<rfloor>" by simp
  then have a: "\<bar>rat_of_int \<lfloor>p\<rfloor>\<bar> = of_int \<lfloor>p\<rfloor>" by simp
  have "rat_of_int \<lfloor>p\<rfloor> \<le> p" "p < rat_of_int \<lfloor>p\<rfloor> + 1" by linarith+
  with True \<open>0 \<le> \<lfloor>p\<rfloor>\<close> show ?thesis
    by (simp add: truncation_of_def a)
next
  case False
  then have neg: "\<lceil>p\<rceil> \<le> 0" by (simp add: ceiling_le_iff)
  then have a: "\<bar>rat_of_int \<lceil>p\<rceil>\<bar> = - of_int \<lceil>p\<rceil>" by simp
  have b: "\<bar>p\<bar> = - p" using False by simp
  have "p \<le> rat_of_int \<lceil>p\<rceil>" "rat_of_int \<lceil>p\<rceil> - 1 < p" by linarith+
  moreover have "0 \<le> rat_of_int \<lceil>p\<rceil> * p"
    using neg False by (intro mult_nonpos_nonpos) simp_all
  ultimately show ?thesis
    using False by (simp add: truncation_of_def a b)
qed

text \<open>
  One pass of the loop keeps the two truncated products in \<open>prev_lat\<close> and \<open>prev_lng\<close> and
  appends the encodings of their differences to the previous ones.
\<close>

lemma encode_step_truncates:
  assumes "encode_step st (x, y) = Inr st'"
  shows "truncation_of (round_to_double (y * 100000)) (prev_lat st')
       \<and> truncation_of (round_to_double (x * 100000)) (prev_lng st')
       \<and> result st' = result st @ [encode_value (prev_lng st' - prev_lng st),
                                     encode_value (prev_lat st' - prev_lat st)]"
proof -
  from assms have fin: "finite_scale (x, y)"
    and st': "st' = \<lparr>prev_lat = scaled y, prev_lng = scaled x,
                result = result st @ [encode_value (scaled x - prev_lng st),
                                       encode_value (scaled y - prev_lat st)]\<rparr>"
    by (auto simp: encode_step_scaled split: if_splits)
  have "truncation_of (round_to_double (v * 100000)) (scaled v)" for v
    unfolding scaled_def Let_def by (rule truncation_of_trunc)
  then show ?thesis by (simp add: st')
qed

lemma truncation_of_scaled: "truncation_of (round_to_double (v * 100000)) (scaled v)"
  unfolding scaled_def Let_def by (rule truncation_of_trunc)

lemma literal_0_3: "float_literal (3 / 10) = 5404319552844595 / 18014398509481984"
  unfolding float_literal_def
  by (rule round_to_double_cert [where e = "- 2" and m = "5404319552844595" and u = "1 / 2 ^ 54"])
    (simp_all add: power_int_minus)

lemma scaled_0_3:
  "\<not> overflows (float_literal (3 / 10) * 100000) \<and> scaled (float_literal (3 / 10)) = 30000"
proof -
  have prod: "round_to_double (5404319552844595 / 18014398509481984 * 100000) = 30000"
    by (rule round_to_double_cert [where e = "14" and m = "8246337208320000" and u = "1 / 2 ^ 38"])
      (simp_all add: power_int_minus)
  show ?thesis
    unfolding literal_0_3 by (rule scaled_cert [OF prod]) simp_all
qed

lemma exact_scaled_0_3: "exact_scaled (float_literal (3 / 10)) = 29999"
proof -
  have "\<lfloor>5404319552844595 / 18014398509481984 * 100000 :: rat\<rfloor> = 29999"
    by (rule floor_unique) simp_all
  then show ?thesis
    by (simp add: exact_scaled_def literal_0_3 Let_def)
qed

lemma values_30000: "encode_value 30000 = ''_ry@''" "encode_value 29999 = ''}qy@''"
  by code_simp+

text \<open>
  Claim C7, as stated: the scaled integer that \<open>encode_coords\<close> takes the deltas of is the
  value multiplied by \<open>100000\<close> and truncated towards zero. For the double nearest to
  \<open>0.3\<close>, which is slightly below \<open>0.3\<close>, that is \<open>29999\<close>, encoded \<^verbatim>\<open>}qy@\<close>; but
  \<open>encode_coords\<close> returns \<^verbatim>\<open>_ry@?\<close>, the encoding of \<open>30000\<close>, because the product
  \<^verbatim>\<open>0.3 * 1e5\<close> is rounded to the double \<open>30000.0\<close> before \<^verbatim>\<open>int\<close> truncates it.
\<close>

theorem scaling_counterexample:
  "exact_scaled (float_literal (3 / 10)) = 29999
   \<and> encode_coords [(float_literal (3 / 10), 0)] = Inr ''_ry@?''
   \<and> encode_deltas 0 0 [(exact_scaled (float_literal (3 / 10)), exact_scaled 0)] = ''}qy@?''"
proof -
  have enc: "encode_coords [(float_literal (3 / 10), 0)] = Inr ''_ry@?''"
    by (simp only: encode_coords_deltas list.pred_inject finite_scale_def prod.case list.map
        scaled_0_3 scaled_zero simp_thms if_True)
      (simp add: values_30000 small_values)
  have z: "exact_scaled 0 = 0" by (simp add: exact_scaled_def)
  have "encode_deltas 0 0 [(exact_scaled (float_literal (3 / 10)), exact_scaled 0)] = ''}qy@?''"
    by (simp only: exact_scaled_0_3 z) (simp add: values_30000 small_values)
  with exact_scaled_0_3 enc show ?thesis by simp
qed

text \<open>
  Claim C7, amended: whenever \<open>encode_coords\<close> returns a string, it is the encoding of the
  deltas of the scaled integers \<^verbatim>\<open>int(v * 1e5)\<close> of all coordinate values, and each
  scaled integer is the product \<open>v * 100000.0\<close> as computed in double arithmetic (the
  exact product rounded to the nearest double), truncated towards zero and not rounded
  to the nearest integer, for positive and for negative values.
\<close>

theorem scaling_truncates_double_product:
  assumes "encode_coords coords = Inr t"
  shows "t = encode_deltas 0 0 (map (\<lambda>(x, y). (scaled x, scaled y)) coords)
       \<and> (\<forall>(x, y) \<in> set coords.
            truncation_of (round_to_double (x * 100000)) (scaled x) \<and>
            truncation_of (round_to_double (y * 100000)) (scaled y))"
proof
  from assms show "t = encode_deltas 0 0 (map (\<lambda>(x, y). (scaled x, scaled y)) coords)"
    by (simp add: encode_coords_deltas split: if_splits)
  show "\<forall>(x, y) \<in> set coords.
            truncation_of (round_to_double (x * 100000)) (scaled x) \<and>
            truncation_of (round_to_double (y * 100000)) (scaled y)"
    by (simp add: truncation_of_scaled case_prod_unfold)
qed

theorem scaling_truncates_witness:
  "encode_coords [(1 / 65536, - (3 / 65536))] = Inr ''AF''
   \<and> ''AF'' = encode_deltas 0 0 [(1, - 4)]
   \<and> truncation_of (round_to_double (1 / 65536 * 100000)) 1
   \<and> truncation_of (round_to_double (- (3 / 65536) * 100000)) (- 4)"
proof -
  have h: "encode_coords [(1 / 65536, - (3 / 65536))] = Inr ''AF''"
    by (simp add: encode_coords_def encode_step_def py_int_small small_values)
  have s: "scaled (1 / 65536) = 1" "scaled (- (3 / 65536)) = - 4"
    using scaled_1_65536 scaled_3_65536 by simp_all
  from scaling_truncates_double_product [OF h]
  have "''AF'' = encode_deltas 0 0 [(scaled (1 / 65536), scaled (- (3 / 65536)))]
      \<and> truncation_of (round_to_double (1 / 65536 * 100000)) (scaled (1 / 65536))
      \<and> truncation_of (round_to_double (- (3 / 65536) * 100000)) (scaled (- (3 / 65536)))"
    by simp
  then show ?thesis
    using h by (simp only: s)
qed

section \<open>The characters of an encoding\<close>

lemma encode_value_chars:
  assumes "c \<in> set (encode_value d)"
  shows "63 \<le> py_ord c \<and> py_ord c \<le> 126"
proof -
  from assms obtain chunk where chunk: "chunk \<in> set (split_into_chunks (sign_fold d))"
    and c: "c = py_chr (chunk + 63)"
    by (auto simp: encode_value_def)
  from split_into_chunks_range [OF sign_fold_nonneg chunk]
  have range: "0 \<le> chunk" "chunk \<le> 63" by simp_all
  then have "py_ord c = chunk + 63"
    using ord_chr [of chunk] by (simp add: c)
  with range show ?thesis by simp
qed

lemma encode_deltas_chars:
  "c \<in> set (encode_deltas pa pb ks) \<Longrightarrow> 63 \<le> py_ord c \<and> py_ord c \<le> 126"
  by (induction pa pb ks rule: encode_deltas.induct) (auto dest: encode_value_chars)

text \<open>
  Claim C8. Every character of a string returned by \<open>encode_coords\<close> has a code point
  between 63 and 126: each chunk lies between 0 and 63 (\<open>split_into_chunks_range\<close>), so
  \<open>chr\<close> is applied to a number between 63 and 126.
\<close>

theorem encode_printable:
  assumes "encode_coords coords = Inr t" and "c \<in> set t"
  shows "63 \<le> py_ord c \<and> py_ord c \<le> 126"
proof -
  from assms(1) have "t = encode_deltas 0 0 (map (\<lambda>(x, y). (scaled x, scaled y)) coords)"
    by (simp add: encode_coords_deltas split: if_splits)
  with assms(2) show ?thesis by (auto dest: encode_deltas_chars)
qed

theorem encode_printable_witness:
  "encode_coords
     [(float_literal 38.5, float_literal (- 120.2)),
      (float_literal 40.7, float_literal (- 120.95)),
      (float_literal 43.252, float_literal (- 126.453))]
   = Inr ''_p~iF~ps|U_ulLnnqC_mqNvxq`@''
   \<and> CHR ''~'' \<in> set ''_p~iF~ps|U_ulLnnqC_mqNvxq`@''
   \<and> 63 \<le> py_ord CHR ''~'' \<and> py_ord CHR ''~'' \<le> 126"
proof -
  have m: "CHR ''~'' \<in> set ''_p~iF~ps|U_ulLnnqC_mqNvxq`@''" by simp
  show ?thesis
    using known_encode m encode_printable [OF known_encode m] by simp
qed

section \<open>Decoding, then encoding\<close>

lemma rescales_iff:
  "rescales v \<longleftrightarrow>
     \<not> overflows (v * 100000) \<and> \<not> overflows (of_int (scaled v)) \<and>
     \<not> overflows (unscaled (scaled v) * 100000) \<and> scaled (unscaled (scaled v)) = scaled v"
  by (simp add: rescales_def py_int_scaled int_truediv_unscaled)

lemma rescales_known: "rescales (float_literal 38.5) \<and> rescales (float_literal (- 120.2))"
proof -
  have a: "\<not> overflows (rat_of_int 3850000)"
    using unscaled_small [of 3850000] by simp
  have b: "\<not> overflows (rat_of_int (- 12020000))"
    using unscaled_small [of "- 12020000"] by simp
  show ?thesis
    by (simp only: rescales_iff scaled_38_5 scaled_120_2 unscaled_known a b simp_thms)
qed

lemma unscaled_7: "\<not> overflows (of_int 7) \<and> unscaled 7 = float_literal (7 / 100000)"
  using unscaled_small [of 7] by (simp add: float_literal_def)

lemma unscaled_0: "\<not> overflows (of_int 0) \<and> unscaled 0 = 0"
  using unscaled_small [of 0] by (simp add: round_to_double_def)

text \<open>
  Claim C5, as stated: for every string \<open>t\<close> that \<open>encode_coords\<close> returns, encoding the
  decoding of \<open>t\<close> gives \<open>t\<close> again. The double \<open>5/65536\<close> scales to \<open>7\<close>, so
  \<open>encode_coords\<close> returns \<^verbatim>\<open>M?\<close> for the coordinate \<open>(5/65536, 0)\<close>; decoding \<^verbatim>\<open>M?\<close> gives
  \<^verbatim>\<open>7 / 100000.0\<close>, the double nearest to \<open>0.00007\<close>, whose product with \<open>100000.0\<close> is
  \<open>6.999999999999999\<close> and is truncated to \<open>6\<close>: encoding it gives \<^verbatim>\<open>K?\<close>.
\<close>

theorem stability_counterexample:
  "is_double (5 / 65536)
   \<and> encode_coords [(5 / 65536, 0)] = Inr ''M?''
   \<and> decode_polyline ''M?'' = Inr [(float_literal (7 / 100000), 0)]
   \<and> encode_coords [(float_literal (7 / 100000), 0)] = Inr ''K?''"
proof -
  have enc1: "encode_coords [(5 / 65536, 0)] = Inr ''M?''"
    by (simp add: encode_coords_def encode_step_def py_int_small small_values)
  have enc2: "encode_coords [(float_literal (7 / 100000), 0)] = Inr ''K?''"
    by (simp only: encode_coords_def encode_loop.simps encode_step_def prod.case py_int_small
        sum.case Let_def) (simp add: small_values)
  have "decode_loop ([] @ encode_deltas 0 0 [(7, 0)]) (length ([] :: string)) 0 0 []
        = Inr ([] @ map (\<lambda>(a, b). (unscaled a, unscaled b)) [(7, 0)])"
    by (rule decode_loop_deltas) (use unscaled_7 unscaled_0 in simp)
  then have dec: "decode_polyline ''M?'' = Inr [(float_literal (7 / 100000), 0)]"
    using unscaled_7 unscaled_0 by (simp add: decode_polyline_def small_values)
  show ?thesis
    using is_double_5_65536 enc1 dec enc2 by simp
qed

text \<open>
  Claim C5, amended: for every coordinate sequence in which each value rescales (the
  coordinate that the decoder returns for its scaled integer is scaled to the same integer
  again), \<open>encode_coords\<close> returns a string \<open>t\<close>, \<open>decode_polyline\<close> succeeds on \<open>t\<close>, and
  encoding the decoded sequence gives \<open>t\<close> again.
\<close>

theorem stable_when_rescaling:
  assumes "\<forall>(x, y) \<in> set seq. rescales x \<and> rescales y"
  shows "\<exists>t seq'. encode_coords seq = Inr t \<and> decode_polyline t = Inr seq'
           \<and> encode_coords seq' = Inr t"
proof -
  let ?ks = "map (\<lambda>(x, y). (scaled x, scaled y)) seq"
  let ?seq' = "map (\<lambda>(a, b). (unscaled a, unscaled b)) ?ks"
  have each: "rescales x \<and> rescales y" if "(x, y) \<in> set seq" for x y
    using assms that by blast
  have fin: "list_all finite_scale seq"
    using each by (auto simp: list_all_iff finite_scale_def rescales_iff)
  then have enc: "encode_coords seq = Inr (encode_deltas 0 0 ?ks)"
    by (simp add: encode_coords_deltas)
  have "\<forall>(a, b) \<in> set ?ks. \<not> overflows (of_int a) \<and> \<not> overflows (of_int b)"
    using each by (auto simp: rescales_iff)
  then have "decode_loop ([] @ encode_deltas 0 0 ?ks) (length ([] :: string)) 0 0 []
        = Inr ([] @ ?seq')"
    by (rule decode_loop_deltas)
  then have dec: "decode_polyline (encode_deltas 0 0 ?ks) = Inr ?seq'"
    by (simp add: decode_polyline_def)
  have fin': "list_all finite_scale ?seq'"
    using each by (auto simp: list_all_iff finite_scale_def rescales_iff)
  have "map (\<lambda>(x, y). (scaled x, scaled y)) ?seq'
        = map (\<lambda>c. (scaled (unscaled (scaled (fst c))), scaled (unscaled (scaled (snd c))))) seq"
    by (simp add: case_prod_unfold comp_def)
  also have "\<dots> = ?ks"
    using each by (auto simp: rescales_iff)
  finally have "encode_coords ?seq' = Inr (encode_deltas 0 0 ?ks)"
    using fin' by (simp only: encode_coords_deltas if_True)
  with enc dec show ?thesis by blast
qed

theorem stable_when_rescaling_witness:
  "rescales (float_literal 38.5) \<and> rescales (float_literal (- 120.2))
   \<and> (\<exists>t seq'. encode_coords [(float_literal 38.5, float_literal (- 120.2))] = Inr t
          \<and> decode_polyline t = Inr seq' \<and> encode_coords seq' = Inr t)"
proof -
  have h: "\<forall>(x, y) \<in> set [(float_literal 38.5, float_literal (- 120.2))]. rescales x \<and> rescales y"
    using rescales_known by simp
  show ?thesis
    using rescales_known stable_when_rescaling [OF h] by blast
qed

section \<open>Coordinates with five decimals\<close>

text \<open>
  In general, decoding an encoding replaces every coordinate value \<open>v\<close> by
  \<^verbatim>\<open>int(v * 1e5) / 100000.0\<close>.
\<close>

lemma decode_encode:
  assumes "list_all finite_scale seq"
    and "\<forall>(x, y) \<in> set seq. \<not> overflows (of_int (scaled x)) \<and> \<not> overflows (of_int (scaled y))"
  shows "\<exists>t. encode_coords seq = Inr t
           \<and> decode_polyline t = Inr (map (\<lambda>(x, y). (unscaled (scaled x), unscaled (scaled y))) seq)"
proof -
  let ?ks = "map (\<lambda>(x, y). (scaled x, scaled y)) seq"
  have enc: "encode_coords seq = Inr (encode_deltas 0 0 ?ks)"
    using assms(1) by (simp add: encode_coords_deltas)
  have "\<forall>(a, b) \<in> set ?ks. \<not> overflows (of_int a) \<and> \<not> overflows (of_int b)"
    using assms(2) by auto
  then have "decode_loop ([] @ encode_deltas 0 0 ?ks) (length ([] :: string)) 0 0 []
        = Inr ([] @ map (\<lambda>(a, b). (unscaled a, unscaled b)) ?ks)"
    by (rule decode_loop_deltas)
  then have "decode_polyline (encode_deltas 0 0 ?ks)
        = Inr (map (\<lambda>(x, y). (unscaled (scaled x), unscaled (scaled y))) seq)"
    by (simp add: decode_polyline_def case_prod_unfold comp_def)
  with enc show ?thesis by simp
qed

lemma five_decimal_zero: "five_decimal 0 = 0"
  by (simp add: five_decimal_def float_literal_def round_to_double_def)

lemma scales_back_restored:
  assumes "scales_back k"
  shows "\<not> overflows (five_decimal k * 100000) \<and> scaled (five_decimal k) = k
       \<and> \<not> overflows (of_int k) \<and> unscaled k = five_decimal k"
proof -
  from assms have fin: "\<not> overflows (five_decimal k * 100000)"
    and sc: "scaled (five_decimal k) = k"
    by (simp_all add: scales_back_def py_int_scaled split: if_splits)
  from scaled_is_double [OF fin]
  have dbl: "round_to_double (of_int k) = of_int k" and no: "\<not> overflows (of_int k)"
    by (simp_all add: sc)
  have "unscaled k = five_decimal k"
    by (simp add: unscaled_def dbl five_decimal_def float_literal_def)
  with fin sc no show ?thesis by simp
qed

lemma scales_back_known: "scales_back 3850000 \<and> scales_back (- 12020000)"
proof -
  have a: "five_decimal 3850000 = float_literal 38.5"
    by (simp add: five_decimal_def)
  have b: "five_decimal (- 12020000) = float_literal (- 120.2)"
    by (simp add: five_decimal_def)
  show ?thesis
    by (simp only: scales_back_def a b py_int_scaled scaled_38_5 scaled_120_2 if_False simp_thms)
qed

lemma five_decimal_435000: "five_decimal 435000 = 2448832297382707 / 562949953421312"
  unfolding five_decimal_def float_literal_def
  by (rule round_to_double_cert [where e = "2" and m = "4897664594765414" and u = "1 / 2 ^ 50"])
    (simp_all add: power_int_minus)

lemma five_decimal_434999: "five_decimal 434999 = 2448826667883173 / 562949953421312"
  unfolding five_decimal_def float_literal_def
  by (rule round_to_double_cert [where e = "2" and m = "4897653335766346" and u = "1 / 2 ^ 50"])
    (simp_all add: power_int_minus)

lemma scaled_4_35:
  "\<not> overflows (five_decimal 435000 * 100000) \<and> scaled (five_decimal 435000) = 434999"
proof -
  have prod: "round_to_double (2448832297382707 / 562949953421312 * 100000)
      = 7473243095039999 / 17179869184"
    by (rule round_to_double_cert [where e = "18" and m = "7473243095039999" and u = "1 / 2 ^ 34"])
      (simp_all add: power_int_minus)
  show ?thesis
    unfolding five_decimal_435000 by (rule scaled_cert [OF prod]) simp_all
qed

lemma value_434999: "encode_value 434999 = ''mrpY''"
  by code_simp

text \<open>
  Claim C1, as stated: for every coordinate sequence whose values are multiples of
  \<open>10\<^sup>-\<^sup>5\<close> (coordinates with five decimals), decoding the encoding gives the sequence
  back. For the coordinate \<open>(4.35, 0.0)\<close> the product \<^verbatim>\<open>4.35 * 1e5\<close> is
  \<open>434999.99999999994\<close> and is truncated to \<open>434999\<close>: the encoding is \<^verbatim>\<open>mrpY?\<close>, which
  decodes to \<open>(4.34999, 0.0)\<close>.
\<close>

theorem roundtrip_counterexample:
  "encode_coords [(five_decimal 435000, five_decimal 0)] = Inr ''mrpY?''
   \<and> decode_polyline ''mrpY?'' = Inr [(five_decimal 434999, five_decimal 0)]
   \<and> five_decimal 434999 \<noteq> five_decimal 435000"
proof -
  have enc: "encode_coords [(five_decimal 435000, five_decimal 0)] = Inr ''mrpY?''"
    by (simp only: encode_coords_deltas list.pred_inject finite_scale_def prod.case list.map
        five_decimal_zero scaled_4_35 scaled_zero simp_thms if_True)
      (simp add: value_434999 small_values)
  have u: "\<not> overflows (of_int 434999) \<and> unscaled 434999 = five_decimal 434999"
    using unscaled_small [of 434999] by (simp add: five_decimal_def float_literal_def)
  have "decode_loop ([] @ encode_deltas 0 0 [(434999, 0)]) (length ([] :: string)) 0 0 []
        = Inr ([] @ map (\<lambda>(a, b). (unscaled a, unscaled b)) [(434999, 0)])"
    by (rule decode_loop_deltas) (use u unscaled_0 in simp)
  then have dec: "decode_polyline ''mrpY?'' = Inr [(five_decimal 434999, five_decimal 0)]"
    using u unscaled_0 by (simp add: decode_polyline_def value_434999 small_values five_decimal_zero)
  have ne: "five_decimal 434999 \<noteq> five_decimal 435000"
    by (simp add: five_decimal_434999 five_decimal_435000)
  from enc dec ne show ?thesis by simp
qed

text \<open>
  Claim C1, amended: for every coordinate sequence whose values are coordinates with
  five decimals \<open>k * 10\<^sup>-\<^sup>5\<close> for which \<^verbatim>\<open>int(v * 1e5)\<close> is \<open>k\<close> again, \<open>encode_coords\<close>
  returns a string and \<open>decode_polyline\<close> maps that string to the sequence itself.
\<close>

theorem roundtrip_five_decimals:
  assumes "\<forall>(a, b) \<in> set ks. scales_back a \<and> scales_back b"
  shows "\<exists>t. encode_coords (map (\<lambda>(a, b). (five_decimal a, five_decimal b)) ks) = Inr t
           \<and> decode_polyline t = Inr (map (\<lambda>(a, b). (five_decimal a, five_decimal b)) ks)"
proof -
  let ?seq = "map (\<lambda>(a, b). (five_decimal a, five_decimal b)) ks"
  have each: "\<not> overflows (five_decimal a * 100000) \<and> scaled (five_decimal a) = a
       \<and> \<not> overflows (of_int a) \<and> unscaled a = five_decimal a
       \<and> \<not> overflows (five_decimal b * 100000) \<and> scaled (five_decimal b) = b
       \<and> \<not> overflows (of_int b) \<and> unscaled b = five_decimal b"
    if "(a, b) \<in> set ks" for a b
    using assms that scales_back_restored [of a] scales_back_restored [of b] by blast
  have fin: "list_all finite_scale ?seq"
    using each by (auto simp: list_all_iff finite_scale_def)
  have no: "\<forall>(x, y) \<in> set ?seq. \<not> overflows (of_int (scaled x)) \<and> \<not> overflows (of_int (scaled y))"
    using each by auto
  have "map (\<lambda>(x, y). (unscaled (scaled x), unscaled (scaled y))) ?seq
        = map (\<lambda>c. (unscaled (scaled (five_decimal (fst c))), unscaled (scaled (five_decimal (snd c))))) ks"
    by (simp add: case_prod_unfold comp_def)
  also have "\<dots> = map (\<lambda>c. (five_decimal (fst c), five_decimal (snd c))) ks"
    by (rule map_cong) (use each in auto)
  also have "\<dots> = ?seq"
    by (simp add: case_prod_unfold)
  finally have eq: "map (\<lambda>(x, y). (unscaled (scaled x), unscaled (scaled y))) ?seq = ?seq" .
  from decode_encode [OF fin no] show ?thesis
    unfolding eq .
qed

theorem roundtrip_five_decimals_witness:
  "scales_back 3850000 \<and> scales_back (- 12020000)
   \<and> (\<exists>t. encode_coords [(five_decimal 3850000, five_decimal (- 12020000))] = Inr t
          \<and> decode_polyline t = Inr [(five_decimal 3850000, five_decimal (- 12020000))])"
proof -
  have h: "\<forall>(a, b) \<in> set [(3850000, - 12020000)]. scales_back a \<and> scales_back b"
    using scales_back_known by simp
  show ?thesis
    using scales_back_known roundtrip_five_decimals [OF h] by simp
qed

text \<open>
  Another coordinate with five decimals that does not come back: \<^verbatim>\<open>0.00007\<close> is encoded
  as \<open>6\<close> and decoded to \<^verbatim>\<open>0.00006\<close>.
\<close>

lemma nearest_double_not_restored:
  "encode_coords [(float_literal (7 / 100000), 0)] = Inr ''K?''
   \<and> decode_polyline ''K?'' = Inr [(float_literal (6 / 100000), 0)]"
proof -
  have enc: "encode_coords [(float_literal (7 / 100000), 0)] = Inr ''K?''"
    by (simp only: encode_coords_def encode_loop.simps encode_step_def prod.case py_int_small
        sum.case Let_def) (simp add: small_values)
  have u6: "\<not> overflows (of_int 6) \<and> unscaled 6 = float_literal (6 / 100000)"
    using unscaled_small [of 6] by (simp add: float_literal_def)
  have "decode_loop ([] @ encode_deltas 0 0 [(6, 0)]) (length ([] :: string)) 0 0 []
        = Inr ([] @ map (\<lambda>(a, b). (unscaled a, unscaled b)) [(6, 0)])"
    by (rule decode_loop_deltas) (use u6 unscaled_0 in simp)
  then have "decode_polyline ''K?'' = Inr [(float_literal (6 / 100000), 0)]"
    using u6 unscaled_0 by (simp add: decode_polyline_def small_values)
  with enc show ?thesis by simp
qed

section \<open>The polylines of a directions response\<close>

lemma directions_loop_all:
  "directions_loop acc ds =
     (if \<forall>d \<in> set ds. overview_polyline d \<noteq> None
      then Inr (acc @ map (\<lambda>d. points (the (overview_polyline d))) ds)
      else Inl NameError)"
  by (induction ds arbitrary: acc) (auto split: option.splits)

text \<open>
  Claim C10. \<open>get_directions_polylines\<close> returns the \<open>points\<close> strings of the entries, in
  input order, when every entry has the key \<^verbatim>\<open>'overview_polyline'\<close> (in particular for
  the empty list); on every input with an entry without that key it raises NameError, and
  no placeholder is appended.
\<close>

theorem get_directions_polylines_result:
  "get_directions_polylines directions_result =
     (if \<forall>d \<in> set directions_result. overview_polyline d \<noteq> None
      then Inr (map (\<lambda>d. points (the (overview_polyline d))) directions_result)
      else Inl NameError)"
  by (cases directions_result) (simp_all add: get_directions_polylines_def directions_loop_all)

theorem get_directions_polylines_witness:
  "get_directions_polylines
     [\<lparr>overview_polyline = Some \<lparr>points = ''_p~iF''\<rparr>\<rparr>, \<lparr>overview_polyline = Some \<lparr>points = ''A?''\<rparr>\<rparr>]
     = Inr [''_p~iF'', ''A?'']
   \<and> get_directions_polylines
     [\<lparr>overview_polyline = Some \<lparr>points = ''_p~iF''\<rparr>\<rparr>, \<lparr>overview_polyline = None\<rparr>]
     = Inl NameError"
  using get_directions_polylines_result
      [of "[\<lparr>overview_polyline = Some \<lparr>points = ''_p~iF''\<rparr>\<rparr>, \<lparr>overview_polyline = Some \<lparr>points = ''A?''\<rparr>\<rparr>]"]
    get_directions_polylines_result
      [of "[\<lparr>overview_polyline = Some \<lparr>points = ''_p~iF''\<rparr>\<rparr>, \<lparr>overview_polyline = None\<rparr>]"]
  by simp

section \<open>Input that ends inside an integer\<close>

lemma read_chunks_stops:
  "read_chunks s index shift r = Inr (index', r') \<Longrightarrow>
   index < index' \<and> index' \<le> length s \<and> \<not> 32 \<le> py_ord (s ! (index' - 1)) - 63"
proof (induction s index shift r rule: read_chunks.induct)
  case (1 s index shift r)
  from "1.prems" have in_range: "index < length s"
    by (subst (asm) read_chunks.simps) (simp split: if_splits)
  show ?case
  proof (cases "32 \<le> py_ord (s ! index) - 63")
    case True
    from "1.prems" have "read_chunks s (index + 1) (shift + 5)
        (r OR push_bit shift ((py_ord (s ! index) - 63) AND 31)) = Inr (index', r')"
      by (simp only: read_chunks_more [OF in_range refl True])
    with "1.IH" [OF _ refl refl refl refl] True in_range
    have "index + 1 < index' \<and> index' \<le> length s \<and> \<not> 32 \<le> py_ord (s ! (index' - 1)) - 63"
      by simp
    then show ?thesis by simp
  next
    case False
    from "1.prems" have "index' = index + 1"
      by (simp only: read_chunks_last [OF in_range refl False]) simp
    with False in_range show ?thesis by simp
  qed
qed

lemma read_chunks_error:
  "read_chunks s index shift r = Inl e \<Longrightarrow> e = IndexError"
proof (induction s index shift r rule: read_chunks.induct)
  case (1 s index shift r)
  show ?case
  proof (cases "index < length s")
    case in_range: True
    show ?thesis
    proof (cases "32 \<le> py_ord (s ! index) - 63")
      case True
      from "1.prems" have "read_chunks s (index + 1) (shift + 5)
          (r OR push_bit shift ((py_ord (s ! index) - 63) AND 31)) = Inl e"
        by (simp only: read_chunks_more [OF in_range refl True])
      with "1.IH" [OF _ refl refl refl refl] True in_range show ?thesis by simp
    next
      case False
      from "1.prems" show ?thesis
        by (simp only: read_chunks_last [OF in_range refl False]) simp
    qed
  next
    case False
    with "1.prems" show ?thesis
      by (subst (asm) read_chunks.simps) simp
  qed
qed

lemma decode_unit_truncated:
  assumes "s \<noteq> []" and "32 \<le> py_ord (last s) - 63"
  shows "decode_unit s index = Inl IndexError
       \<or> (\<exists>index' d. decode_unit s index = Inr (index', d) \<and> index' < length s)"
proof (cases "read_chunks s index 0 0")
  case (Inl e)
  then show ?thesis
    by (auto simp: decode_unit_def dest: read_chunks_error)
next
  case (Inr a)
  obtain index' r where a: "a = (index', r)" by (cases a)
  from read_chunks_stops [OF Inr [unfolded a]]
  have pos: "0 < index'" and le: "index' \<le> length s"
    and stop: "\<not> 32 \<le> py_ord (s ! (index' - 1)) - 63"
    by simp_all
  have "index' \<noteq> length s"
  proof
    assume "index' = length s"
    with stop assms(1) have "\<not> 32 \<le> py_ord (last s) - 63"
      by (simp add: last_conv_nth)
    with assms(2) show False by contradiction
  qed
  with le have "index' < length s" by simp
  with Inr a show ?thesis by (simp add: decode_unit_def)
qed

lemma int_truediv_error: "int_truediv k d = Inl e \<Longrightarrow> e = OverflowError"
  by (simp add: int_truediv_def split: if_splits)

lemma decode_loop_truncated:
  assumes "s \<noteq> []" and "32 \<le> py_ord (last s) - 63" and "index < length s"
  shows "decode_loop s index lat lng acc = Inl IndexError
       \<or> decode_loop s index lat lng acc = Inl OverflowError"
  using assms
proof (induction s index lat lng acc rule: decode_loop.induct)
  case (1 s index lat lng coordinates)
  note trunc = decode_unit_truncated [OF "1.prems"(1,2)]
  from trunc [of index] show ?case
  proof
    assume "decode_unit s index = Inl IndexError"
    with "1.prems"(3) show ?thesis
      by (subst decode_loop.simps) simp
  next
    assume "\<exists>index' d. decode_unit s index = Inr (index', d) \<and> index' < length s"
    then obtain index1 change_lat where u1: "decode_unit s index = Inr (index1, change_lat)"
      and lt1: "index1 < length s" by blast
    from trunc [of index1] show ?thesis
    proof
      assume "decode_unit s index1 = Inl IndexError"
      with "1.prems"(3) u1 show ?thesis
        by (subst decode_loop.simps) simp
    next
      assume "\<exists>index' d. decode_unit s index1 = Inr (index', d) \<and> index' < length s"
      then obtain index2 change_lng where u2: "decode_unit s index1 = Inr (index2, change_lng)"
        and lt2: "index2 < length s" by blast
      show ?thesis
      proof (cases "int_truediv (lat + change_lat) 100000")
        case (Inl e)
        with "1.prems"(3) u1 u2 int_truediv_error [OF Inl] show ?thesis
          by (subst decode_loop.simps) (simp add: Let_def)
      next
        case flat: (Inr flat)
        show ?thesis
        proof (cases "int_truediv (lng + change_lng) 100000")
          case (Inl e)
          with "1.prems"(3) u1 u2 flat int_truediv_error [OF Inl] show ?thesis
            by (subst decode_loop.simps) (simp add: Let_def)
        next
          case flng: (Inr flng)
          have step: "decode_loop s index lat lng coordinates
              = decode_loop s index2 (lat + change_lat) (lng + change_lng)
                  (coordinates @ [(flat, flng)])"
            using "1.prems"(3) u1 u2 flat flng
            by (subst decode_loop.simps) (simp add: Let_def)
          from "1.IH" [OF "1.prems"(3) u1 refl u2 refl refl refl flat flng "1.prems"(1,2) lt2]
          show ?thesis
            by (simp only: step)
        qed
      qed
    qed
  qed
qed

lemma truncated_example: "decode_polyline ''_p~iF~ps|U_'' = Inl IndexError"
proof -
  let ?s = "''_p~iF~ps|U_''"
  have u1: "decode_unit ?s 0 = Inr (5, 3850000)" by code_simp
  have u2: "decode_unit ?s 5 = Inr (10, - 12020000)" by code_simp
  have u3: "decode_unit ?s 10 = Inl IndexError" by code_simp
  have d1: "int_truediv 3850000 100000 = Inr (unscaled 3850000)"
    using unscaled_small [of 3850000] by (simp add: int_truediv_unscaled)
  have d2: "int_truediv (- 12020000) 100000 = Inr (unscaled (- 12020000))"
    using unscaled_small [of "- 12020000"] by (simp add: int_truediv_unscaled)
  have "decode_loop ?s 0 0 0 []
        = decode_loop ?s 10 3850000 (- 12020000) [(unscaled 3850000, unscaled (- 12020000))]"
    by (subst decode_loop.simps) (simp add: u1 u2 d1 d2)
  also have "\<dots> = Inl IndexError"
    by (subst decode_loop.simps) (simp add: u3)
  finally show ?thesis by (simp only: decode_polyline_def)
qed

text \<open>
  A complete coordinate that is too large for a double makes the decoder raise
  OverflowError before it reaches the end of the string: 205 characters \<^verbatim>\<open>~\<close> and the
  character \<^verbatim>\<open>@\<close> encode \<open>-2\<^sup>1\<^sup>0\<^sup>2\<^sup>5\<close>.
\<close>

lemma overflow_example:
  "decode_polyline (replicate 205 CHR ''~'' @ ''@?_'') = Inl OverflowError"
proof -
  let ?s = "replicate 205 CHR ''~'' @ ''@?_''"
  have len: "0 < length ?s" by simp
  have u1: "decode_unit ?s 0 = Inr (206, - (2 ^ 1025))" by code_simp
  have u2: "decode_unit ?s 206 = Inr (207, 0)" by code_simp
  have r: "round_to_double (- (2 ^ 1025)) = - (2 ^ 1025)"
    by (rule round_to_double_cert [where e = "1025" and m = "4503599627370496" and u = "2 ^ 973"])
      (simp_all add: power_int_minus)
  have "rat_of_int (- (2 ^ 1025)) = - (2 ^ 1025)" by simp
  then have "overflows (of_int (- (2 ^ 1025)))"
    unfolding overflows_def by (simp only: r) simp
  then have d: "int_truediv (- (2 ^ 1025)) 100000 = Inl OverflowError"
    by (simp add: int_truediv_def)
  have "decode_loop ?s 0 0 0 [] = Inl OverflowError"
    by (subst decode_loop.simps) (simp only: len u1 u2 d if_True sum.case prod.case Let_def add_0)
  then show ?thesis by (simp only: decode_polyline_def)
qed

text \<open>
  Claim C4, as stated: on every input that ends inside a variable-length integer,
  \<open>decode_polyline\<close> fails with a MalformedInput error. On the one-character string
  \<^verbatim>\<open>_\<close> (chunk \<open>32\<close>, continuation bit set) the result is IndexError, raised by
  \<^verbatim>\<open>polyline_str[index]\<close> at the end of the string.
\<close>

theorem truncated_input_counterexample:
  "32 \<le> py_ord (last ''_'') - 63
   \<and> decode_polyline ''_'' = Inl IndexError
   \<and> decode_polyline ''_'' \<noteq> Inl MalformedInput"
  by code_simp

text \<open>
  Claim C4, amended: on every input whose last character has the continuation bit set
  (its code minus 63 is at least \<open>0x20\<close>), \<open>decode_polyline\<close> raises an exception and
  returns no coordinate list: IndexError, or OverflowError when a complete coordinate
  before the end is too large for a float.
\<close>

theorem truncated_input_raises:
  assumes "s \<noteq> []" and "32 \<le> py_ord (last s) - 63"
  shows "decode_polyline s = Inl IndexError \<or> decode_polyline s = Inl OverflowError"
  using decode_loop_truncated [OF assms, of 0 0 0 "[]"] assms(1)
  by (simp add: decode_polyline_def)

theorem truncated_input_raises_witness:
  "''_p~iF~ps|U_'' \<noteq> [] \<and> 32 \<le> py_ord (last ''_p~iF~ps|U_'') - 63
   \<and> decode_polyline ''_p~iF~ps|U_'' = Inl IndexError"
proof -
  have a: "''_p~iF~ps|U_'' \<noteq> []" by simp
  have b: "32 \<le> py_ord (last ''_p~iF~ps|U_'') - 63" by (simp add: py_ord_def)
  show ?thesis
    using a b truncated_example truncated_input_raises [OF a b] by simp
qed

end
